theory Spec2Isabelle
  imports Complex_Main "HOL-Library.Multiset"
begin

section \<open>Domain model (src/lib/models.ts)\<close>

text \<open>
  JavaScript numbers are modelled as reals where they are measured quantities
  (coordinates, durations, fitness values) and as integers where they are
  identifiers, counters or array indices.  Rounding of floating-point
  arithmetic and the value NaN are outside the model.
\<close>

datatype TaskType = DELIVERY | PICKUP | PICKUP_DELIVERY

record Position =
  x :: real
  y :: real

record Task =
  task_id :: int
  task_type :: TaskType
  position :: Position
  processingTime :: real

text \<open>
  The parameter object of the \<open>Task\<close> constructor; \<open>processingTime\<close> is optional
  there (\<open>None\<close> is an omitted field).
\<close>

record TaskParams =
  p_id :: int
  p_type :: TaskType
  p_position :: Position
  p_processingTime :: "real option"

text \<open>
  \<open>this.processingTime = params.processingTime || 5\<close>: the operator \<open>||\<close> takes its
  right operand when the left one is falsy, which for a number is \<open>undefined\<close> or zero.
\<close>

definition Task_new :: "TaskParams \<Rightarrow> Task" where
  "Task_new params =
     \<lparr>task_id = p_id params,
      task_type = p_type params,
      position = p_position params,
      processingTime =
        (case p_processingTime params of
           None \<Rightarrow> 5
         | Some v \<Rightarrow> if v = 0 then 5 else v)\<rparr>"

definition euclid :: "Position \<Rightarrow> Position \<Rightarrow> real" where
  "euclid p q = sqrt ((x p - x q)\<^sup>2 + (y p - y q)\<^sup>2)"

definition distanceFrom :: "Task \<Rightarrow> Position \<Rightarrow> real" where
  "distanceFrom t pos = euclid (position t) pos"

record StorageSlot =
  isOccupied :: bool
  taskId :: "int option"
  taskType :: "TaskType option"

record AMR =
  amr_position :: Position
  storageSlots :: "StorageSlot list"

definition home :: Position where
  "home = \<lparr>x = 2, y = 2\<rparr>"

definition emptySlot :: StorageSlot where
  "emptySlot = \<lparr>isOccupied = False, taskId = None, taskType = None\<rparr>"

definition occupiedSlot :: "Task \<Rightarrow> StorageSlot" where
  "occupiedSlot t =
     \<lparr>isOccupied = True, taskId = Some (task_id t), taskType = Some (task_type t)\<rparr>"

text \<open>The \<open>AMR\<close> constructor: both parameters are optional.\<close>

definition AMR_new :: "Position option \<Rightarrow> StorageSlot list option \<Rightarrow> AMR" where
  "AMR_new pos slots =
     \<lparr>amr_position = (case pos of None \<Rightarrow> home | Some p \<Rightarrow> p),
      storageSlots =
        (case slots of
           None \<Rightarrow> [emptySlot, emptySlot, emptySlot, emptySlot]
         | Some ss \<Rightarrow> ss)\<rparr>"

definition occupiedCount :: "StorageSlot list \<Rightarrow> nat" where
  "occupiedCount ss = length (filter isOccupied ss)"

definition canHandleTask :: "AMR \<Rightarrow> Task \<Rightarrow> bool" where
  "canHandleTask amr t =
     (case task_type t of
        DELIVERY \<Rightarrow> occupiedCount (storageSlots amr) < 4
      | PICKUP \<Rightarrow> occupiedCount (storageSlots amr) < 4
      | PICKUP_DELIVERY \<Rightarrow> occupiedCount (storageSlots amr) < 3)"

definition availableSlots :: "AMR \<Rightarrow> nat" where
  "availableSlots amr = length (filter (\<lambda>s. \<not> isOccupied s) (storageSlots amr))"

text \<open>
  The two loops of \<open>executeTask\<close>: walk the slots from index 0, rewrite the first
  slot that matches and stop.  The second component of \<open>freeFirstOccupied\<close> is the
  flag \<open>pickupDone\<close>.
\<close>

fun occupyFirstEmpty :: "Task \<Rightarrow> StorageSlot list \<Rightarrow> StorageSlot list" where
  "occupyFirstEmpty t [] = []"
| "occupyFirstEmpty t (s # ss) =
     (if \<not> isOccupied s then occupiedSlot t # ss else s # occupyFirstEmpty t ss)"

fun freeFirstOccupied :: "StorageSlot list \<Rightarrow> StorageSlot list \<times> bool" where
  "freeFirstOccupied [] = ([], False)"
| "freeFirstOccupied (s # ss) =
     (if isOccupied s then (emptySlot # ss, True)
      else (case freeFirstOccupied ss of (ss', found) \<Rightarrow> (s # ss', found)))"

definition executeTask :: "AMR \<Rightarrow> Task \<Rightarrow> AMR" where
  "executeTask amr t =
     (let amr1 = amr\<lparr>amr_position := position t\<rparr> in
      case task_type t of
        DELIVERY \<Rightarrow> amr1\<lparr>storageSlots := occupyFirstEmpty t (storageSlots amr1)\<rparr>
      | PICKUP \<Rightarrow> amr1\<lparr>storageSlots := fst (freeFirstOccupied (storageSlots amr1))\<rparr>
      | PICKUP_DELIVERY \<Rightarrow>
          (case freeFirstOccupied (storageSlots amr1) of
             (freed, pickupDone) \<Rightarrow>
               if pickupDone then amr1\<lparr>storageSlots := occupyFirstEmpty t freed\<rparr>
               else amr1\<lparr>storageSlots := freed\<rparr>))"

section \<open>Slot transitions\<close>

lemma occupyFirstEmpty_full:
  "\<forall>s \<in> set ss. isOccupied s \<Longrightarrow> occupyFirstEmpty t ss = ss"
  by (induction ss) auto

lemma freeFirstOccupied_none:
  "\<forall>s \<in> set ss. \<not> isOccupied s \<Longrightarrow> freeFirstOccupied ss = (ss, False)"
  by (induction ss) auto

lemma freeFirstOccupied_flag:
  "snd (freeFirstOccupied ss) = (\<exists>s \<in> set ss. isOccupied s)"
  by (induction ss) (auto split: prod.splits)

lemma length_occupyFirstEmpty: "length (occupyFirstEmpty t ss) = length ss"
  by (induction ss) auto

lemma length_freeFirstOccupied: "length (fst (freeFirstOccupied ss)) = length ss"
  by (induction ss) (auto split: prod.splits)

lemma occupiedCount_free:
  "freeFirstOccupied ss = (ss', True) \<Longrightarrow> occupiedCount ss' + 1 = occupiedCount ss"
  by (induction ss arbitrary: ss')
    (auto simp: occupiedCount_def emptySlot_def split: prod.splits if_splits)

lemma occupiedCount_occupy:
  "\<exists>s \<in> set ss. \<not> isOccupied s \<Longrightarrow>
   occupiedCount (occupyFirstEmpty t ss) = occupiedCount ss + 1"
  by (induction ss) (auto simp: occupiedCount_def occupiedSlot_def)

lemma free_leaves_empty:
  "freeFirstOccupied ss = (ss', True) \<Longrightarrow> \<exists>s \<in> set ss'. \<not> isOccupied s"
  by (induction ss arbitrary: ss') (auto simp: emptySlot_def split: prod.splits if_splits)

section \<open>Claims about the domain model\<close>

text \<open>
  C9.  A \<open>Task\<close> constructed with \<open>processingTime\<close> given as 0, or not given at
  all, stores the processing time 5; hence no task built by the constructor has
  processing time 0.
\<close>

theorem Task_new_processingTime_default:
  "processingTime (Task_new (params\<lparr>p_processingTime := Some 0\<rparr>)) = 5
   \<and> processingTime (Task_new (params\<lparr>p_processingTime := None\<rparr>)) = 5
   \<and> processingTime (Task_new params) \<noteq> 0"
  by (simp add: Task_new_def split: option.splits)

text \<open>
  C8.  \<open>executeTask\<close> is a total function without an error branch.  It always moves
  the carrier to the position of the task.  A PICKUP_DELIVERY task on a carrier with
  no occupied slot leaves the slots as they were, and so does every task for which no
  eligible slot exists: a PICKUP with no occupied slot, a DELIVERY with no empty slot.
\<close>

theorem executeTask_no_eligible_slot:
  "amr_position (executeTask amr t) = position t
   \<and> (task_type t = PICKUP_DELIVERY \<and> (\<forall>s \<in> set (storageSlots amr). \<not> isOccupied s)
        \<longrightarrow> storageSlots (executeTask amr t) = storageSlots amr)
   \<and> (task_type t = PICKUP \<and> (\<forall>s \<in> set (storageSlots amr). \<not> isOccupied s)
        \<longrightarrow> storageSlots (executeTask amr t) = storageSlots amr)
   \<and> (task_type t = DELIVERY \<and> (\<forall>s \<in> set (storageSlots amr). isOccupied s)
        \<longrightarrow> storageSlots (executeTask amr t) = storageSlots amr)"
proof -
  have pos: "amr_position (executeTask amr t) = position t"
    by (cases "task_type t")
      (simp_all add: executeTask_def Let_def split: prod.splits)
  have none: "storageSlots (executeTask amr t) = storageSlots amr"
    if "task_type t = PICKUP_DELIVERY \<or> task_type t = PICKUP"
      and "\<forall>s \<in> set (storageSlots amr). \<not> isOccupied s"
    using that freeFirstOccupied_none [of "storageSlots amr"]
    by (auto simp: executeTask_def Let_def)
  have full: "storageSlots (executeTask amr t) = storageSlots amr"
    if "task_type t = DELIVERY" and "\<forall>s \<in> set (storageSlots amr). isOccupied s"
    using that occupyFirstEmpty_full [of "storageSlots amr" t]
    by (simp add: executeTask_def Let_def)
  from pos none full show ?thesis by blast
qed

definition demoTask :: "TaskType \<Rightarrow> Task" where
  "demoTask k = \<lparr>task_id = 7, task_type = k, position = \<lparr>x = 5, y = 5\<rparr>, processingTime = 3\<rparr>"

definition fullAMR :: AMR where
  "fullAMR = AMR_new None (Some (replicate 4 (occupiedSlot (demoTask DELIVERY))))"

theorem executeTask_no_eligible_slot_witness:
  "(task_type (demoTask PICKUP_DELIVERY) = PICKUP_DELIVERY
      \<and> list_all (\<lambda>s. \<not> isOccupied s) (storageSlots (AMR_new None None))
      \<and> storageSlots (executeTask (AMR_new None None) (demoTask PICKUP_DELIVERY))
          = [emptySlot, emptySlot, emptySlot, emptySlot]
      \<and> amr_position (executeTask (AMR_new None None) (demoTask PICKUP_DELIVERY))
          = \<lparr>x = 5, y = 5\<rparr>)
   \<and> (task_type (demoTask PICKUP) = PICKUP
      \<and> storageSlots (executeTask (AMR_new None None) (demoTask PICKUP))
          = [emptySlot, emptySlot, emptySlot, emptySlot])
   \<and> (task_type (demoTask DELIVERY) = DELIVERY
      \<and> list_all isOccupied (storageSlots fullAMR)
      \<and> storageSlots (executeTask fullAMR (demoTask DELIVERY)) = storageSlots fullAMR)"
  using executeTask_no_eligible_slot [of "AMR_new None None" "demoTask PICKUP_DELIVERY"]
    executeTask_no_eligible_slot [of "AMR_new None None" "demoTask PICKUP"]
    executeTask_no_eligible_slot [of fullAMR "demoTask DELIVERY"]
  by (simp add: AMR_new_def demoTask_def fullAMR_def emptySlot_def occupiedSlot_def
      numeral_eq_Suc)

text \<open>
  C10.  Every \<open>executeTask\<close> call keeps the number of slots (4 for a carrier built
  with the default slots).  A PICKUP_DELIVERY task keeps the number of occupied
  slots: the flag \<open>pickupDone\<close> is set exactly when some slot was occupied; then the
  pickup frees one slot and the delivery occupies one; otherwise the slots are
  untouched.
\<close>

theorem executeTask_pickup_delivery_count:
  "length (storageSlots (executeTask amr t)) = length (storageSlots amr)
   \<and> length (storageSlots (AMR_new pos None)) = 4
   \<and> (task_type t = PICKUP_DELIVERY \<longrightarrow>
        occupiedCount (storageSlots (executeTask amr t)) = occupiedCount (storageSlots amr)
        \<and> (case freeFirstOccupied (storageSlots amr) of
             (freed, pickupDone) \<Rightarrow>
               pickupDone = (\<exists>s \<in> set (storageSlots amr). isOccupied s)
               \<and> (pickupDone \<longrightarrow>
                    occupiedCount freed + 1 = occupiedCount (storageSlots amr)
                    \<and> storageSlots (executeTask amr t) = occupyFirstEmpty t freed
                    \<and> occupiedCount (occupyFirstEmpty t freed) = occupiedCount freed + 1)
               \<and> (\<not> pickupDone \<longrightarrow>
                    storageSlots (executeTask amr t) = storageSlots amr)))"
proof -
  obtain freed pickupDone where f: "freeFirstOccupied (storageSlots amr) = (freed, pickupDone)"
    by (cases "freeFirstOccupied (storageSlots amr)")
  have len: "length (storageSlots (executeTask amr t)) = length (storageSlots amr)"
    using length_freeFirstOccupied [of "storageSlots amr"] f
    by (cases "task_type t")
      (simp_all add: executeTask_def Let_def length_occupyFirstEmpty)
  have len4: "length (storageSlots (AMR_new pos None)) = 4"
    by (simp add: AMR_new_def)
  have flag: "pickupDone = (\<exists>s \<in> set (storageSlots amr). isOccupied s)"
    using freeFirstOccupied_flag [of "storageSlots amr"] f by simp
  have picked: "occupiedCount freed + 1 = occupiedCount (storageSlots amr)
      \<and> occupiedCount (occupyFirstEmpty t freed) = occupiedCount freed + 1"
    if "pickupDone"
    using that f occupiedCount_free [of "storageSlots amr" freed]
      free_leaves_empty [of "storageSlots amr" freed] occupiedCount_occupy [of freed t]
    by simp
  have undone: "freed = storageSlots amr" if "\<not> pickupDone"
    using that f flag freeFirstOccupied_none [of "storageSlots amr"] by simp
  have pd: "storageSlots (executeTask amr t) =
      (if pickupDone then occupyFirstEmpty t freed else storageSlots amr)"
    if "task_type t = PICKUP_DELIVERY"
    using that f undone by (simp add: executeTask_def Let_def)
  show ?thesis
    using len len4 flag picked undone pd f by (auto simp del: One_nat_def)
qed

definition oneLoaded :: AMR where
  "oneLoaded = executeTask (AMR_new None None) (demoTask DELIVERY)"

theorem executeTask_pickup_delivery_count_witness:
  "task_type (demoTask PICKUP_DELIVERY) = PICKUP_DELIVERY
   \<and> (\<exists>s \<in> set (storageSlots oneLoaded). isOccupied s)
   \<and> occupiedCount (storageSlots oneLoaded) = 1
   \<and> occupiedCount (storageSlots (executeTask oneLoaded (demoTask PICKUP_DELIVERY))) = 1
   \<and> \<not> (\<exists>s \<in> set (storageSlots (AMR_new None None)). isOccupied s)
   \<and> storageSlots (executeTask (AMR_new None None) (demoTask PICKUP_DELIVERY))
       = storageSlots (AMR_new None None)"
  using executeTask_pickup_delivery_count [of oneLoaded "demoTask PICKUP_DELIVERY" None]
    executeTask_pickup_delivery_count [of "AMR_new None None" "demoTask PICKUP_DELIVERY" None]
  by (simp add: oneLoaded_def executeTask_def AMR_new_def demoTask_def emptySlot_def
      occupiedSlot_def occupiedCount_def)

section \<open>Objective evaluator (FIFOScheduler.calculateMetrics)\<close>

record Metrics =
  makespan :: real
  idleDistance :: real

record EvalState =
  currentTime :: real
  totalIdleDistance :: real
  currentPosition :: Position

definition evalStep :: "EvalState \<Rightarrow> Task \<Rightarrow> EvalState" where
  "evalStep st task =
     (let distance = sqrt ((x (position task) - x (currentPosition st))\<^sup>2
                          + (y (position task) - y (currentPosition st))\<^sup>2);
          time1 = currentTime st + distance;
          idle1 = (if task_type task = DELIVERY then totalIdleDistance st + distance
                   else totalIdleDistance st);
          time2 = time1 + processingTime task
      in \<lparr>currentTime = time2, totalIdleDistance = idle1, currentPosition = position task\<rparr>)"

definition evalStart :: EvalState where
  "evalStart = \<lparr>currentTime = 0, totalIdleDistance = 0, currentPosition = \<lparr>x = 2, y = 2\<rparr>\<rparr>"

definition calculateMetrics :: "Task list \<Rightarrow> Metrics" where
  "calculateMetrics solution =
     (let st = foldl evalStep evalStart solution
      in \<lparr>makespan = currentTime st, idleDistance = totalIdleDistance st\<rparr>)"

definition finalPosition :: "Task list \<Rightarrow> Position" where
  "finalPosition solution = (if solution = [] then home else position (last solution))"

definition scenario :: "Task list" where
  "scenario =
     [\<lparr>task_id = 1, task_type = DELIVERY, position = \<lparr>x = 5, y = 5\<rparr>, processingTime = 5\<rparr>,
      \<lparr>task_id = 2, task_type = PICKUP, position = \<lparr>x = 6, y = 5\<rparr>, processingTime = 3\<rparr>,
      \<lparr>task_id = 3, task_type = DELIVERY, position = \<lparr>x = 7, y = 5\<rparr>, processingTime = 4\<rparr>]"

lemma currentPosition_foldl:
  "currentPosition (foldl evalStep evalStart sol) = finalPosition sol"
  by (induction sol rule: rev_induct)
    (simp_all add: finalPosition_def evalStart_def home_def evalStep_def Let_def)

lemma sqrt18_bounds: "4.2426 < sqrt 18 \<and> sqrt 18 < 4.2427"
proof
  show "4.2426 < sqrt 18" by (rule real_less_rsqrt) (simp add: power2_eq_square)
  show "sqrt 18 < 4.2427" by (rule real_less_lsqrt) (simp_all add: power2_eq_square)
qed

section \<open>FIFO scheduler (FIFOScheduler.schedule)\<close>

definition slotsAfter :: "int \<Rightarrow> Task \<Rightarrow> int" where
  "slotsAfter slotsUsed task =
     (case task_type task of
        DELIVERY \<Rightarrow> slotsUsed + 1
      | PICKUP \<Rightarrow> max 0 (slotsUsed - 1)
      | PICKUP_DELIVERY \<Rightarrow> slotsUsed)"

text \<open>
  The inner \<open>for\<close> loop of \<open>schedule\<close>.  \<open>tasksCopy.splice(i, 1); i--\<close> followed by
  the loop's \<open>i++\<close> removes the task at index \<open>i\<close> and leaves \<open>i\<close> where it is;
  \<open>continue\<close> moves on to \<open>i + 1\<close>; \<open>break\<close> returns.  The result is the pair of
  what is left of \<open>tasksCopy\<close> and the group built.
\<close>

function scanGroup :: "nat \<Rightarrow> int \<Rightarrow> Task list \<Rightarrow> Task list \<Rightarrow> Task list \<times> Task list" where
  "scanGroup i slotsUsed tasksCopy grp =
     (if i < length tasksCopy then
        (let task = tasksCopy ! i in
         if task_type task = PICKUP_DELIVERY \<and> slotsUsed \<ge> 3 then
           scanGroup (i + 1) slotsUsed tasksCopy grp
         else if slotsUsed \<ge> 4 then (tasksCopy, grp)
         else scanGroup i (slotsAfter slotsUsed task)
                (take i tasksCopy @ drop (i + 1) tasksCopy) (grp @ [task]))
      else (tasksCopy, grp))"
  by pat_completeness auto
termination
  by (relation "measure (\<lambda>(i, slotsUsed, tasksCopy, grp). length tasksCopy - i)") auto

declare scanGroup.simps [simp del]

lemma scanGroup_mset:
  "scanGroup i s tc g = (tc', g') \<Longrightarrow> mset tc' + mset g' = mset tc + mset g"
proof (induction i s tc g rule: scanGroup.induct)
  case (1 i slotsUsed tasksCopy grp)
  note unf = "1.prems" [unfolded scanGroup.simps [of i slotsUsed tasksCopy grp]]
  show ?case
  proof (cases "i < length tasksCopy")
    case False
    with unf show ?thesis by simp
  next
    case True
    note lt = this
    let ?task = "tasksCopy ! i"
    consider (skip) "task_type ?task = PICKUP_DELIVERY \<and> slotsUsed \<ge> 3"
      | (stop) "\<not> (task_type ?task = PICKUP_DELIVERY \<and> slotsUsed \<ge> 3)" "slotsUsed \<ge> 4"
      | (admit) "\<not> (task_type ?task = PICKUP_DELIVERY \<and> slotsUsed \<ge> 3)" "\<not> slotsUsed \<ge> 4"
      by blast
    then show ?thesis
    proof cases
      case skip
      with lt unf "1.IH"(1) [OF lt refl] show ?thesis by (simp add: Let_def)
    next
      case stop
      with lt unf show ?thesis by (simp add: Let_def)
    next
      case admit
      have "mset tc' + mset g' =
          mset (take i tasksCopy @ drop (i + 1) tasksCopy) + mset (grp @ [?task])"
        using lt admit unf "1.IH"(2) [OF lt refl] by (auto simp: Let_def)
      also have "\<dots> = mset (take i tasksCopy @ ?task # drop (Suc i) tasksCopy) + mset grp"
        by simp
      also have "take i tasksCopy @ ?task # drop (Suc i) tasksCopy = tasksCopy"
        using lt by (simp add: id_take_nth_drop [symmetric])
      finally show ?thesis .
    qed
  qed
qed

lemma scanGroup_length:
  "scanGroup i s tc g = (tc', g') \<Longrightarrow> length tc' + length g' = length tc + length g"
  using scanGroup_mset [of i s tc g tc' g']
  by (metis size_mset size_union)

text \<open>
  The outer \<open>while\<close> loop.  The source appends the tasks of each group to the flat
  array \<open>result\<close>; the model keeps the groups apart and \<open>schedule\<close> concatenates
  them, so that the groups can be spoken about.
\<close>

function scheduleLoop :: "Task list \<Rightarrow> Task list list \<Rightarrow> Task list list" where
  "scheduleLoop tasksCopy grps =
     (if length tasksCopy > 0 then
        (case scanGroup 0 0 tasksCopy [] of
           (tasksCopy', grp) \<Rightarrow>
             if length grp = 0 then grps @ [grp]
             else scheduleLoop tasksCopy' (grps @ [grp]))
      else grps)"
  by pat_completeness auto
termination
  apply (relation "measure (\<lambda>(tasksCopy, grps). length tasksCopy)")
   apply simp
  subgoal
    apply (drule sym)
    apply (drule scanGroup_length)
    apply (simp del: length_greater_0_conv length_0_conv)
    done
  done

declare scheduleLoop.simps [simp del]

definition scheduleGroups :: "Task list \<Rightarrow> Task list list" where
  "scheduleGroups tasks = scheduleLoop tasks []"

definition schedule :: "Task list \<Rightarrow> Task list" where
  "schedule tasks = concat (scheduleGroups tasks)"

text \<open>
  The capacity property of a group, read from the admission rule: from the given
  occupancy on, the running occupancy stays at most 4 and a PICKUP_DELIVERY task is
  never admitted at an occupancy of 3 or more.
\<close>

fun capacityRespected :: "int \<Rightarrow> Task list \<Rightarrow> bool" where
  "capacityRespected slotsUsed [] = (slotsUsed \<le> 4)"
| "capacityRespected slotsUsed (t # ts) =
     (slotsUsed \<le> 4 \<and> \<not> (task_type t = PICKUP_DELIVERY \<and> slotsUsed \<ge> 3)
      \<and> capacityRespected (slotsAfter slotsUsed t) ts)"

lemma scanGroup_grows:
  "scanGroup i s tc g = (tc', g') \<Longrightarrow> length g \<le> length g'"
proof (induction i s tc g rule: scanGroup.induct)
  case (1 i slotsUsed tasksCopy grp)
  note unf = "1.prems" [unfolded scanGroup.simps [of i slotsUsed tasksCopy grp]]
  show ?case
  proof (cases "i < length tasksCopy")
    case False
    with unf show ?thesis by simp
  next
    case True
    then show ?thesis
      using unf "1.IH"(1) [OF True refl] "1.IH"(2) [OF True refl]
      by (auto simp: Let_def split: if_splits)
  qed
qed

lemma scanGroup_first_admitted:
  assumes "tc \<noteq> []" and "scanGroup 0 0 tc [] = (tc', g)"
  shows "g \<noteq> []"
proof -
  have "scanGroup 0 (slotsAfter 0 (tc ! 0)) (take 0 tc @ drop (0 + 1) tc) ([] @ [tc ! 0])
      = (tc', g)"
    using assms by (simp add: scanGroup.simps [of 0 0 tc "[]"] Let_def)
  from scanGroup_grows [OF this] show ?thesis by auto
qed

lemma capacityRespected_snoc:
  "capacityRespected s (g @ [t]) =
     (capacityRespected s g
      \<and> \<not> (task_type t = PICKUP_DELIVERY \<and> foldl slotsAfter s g \<ge> 3)
      \<and> slotsAfter (foldl slotsAfter s g) t \<le> 4)"
proof (induction g arbitrary: s)
  case Nil
  show ?case by auto
next
  case (Cons a g)
  show ?case by (auto simp: Cons.IH)
qed

lemma slotsAfter_le:
  "s < 4 \<Longrightarrow> slotsAfter s t \<le> 4"
  by (cases "task_type t") (simp_all add: slotsAfter_def)

lemma scanGroup_capacity:
  "scanGroup i s tc g = (tc', g') \<Longrightarrow> capacityRespected s0 g \<Longrightarrow>
   s = foldl slotsAfter s0 g \<Longrightarrow> capacityRespected s0 g'"
proof (induction i s tc g rule: scanGroup.induct)
  case (1 i slotsUsed tasksCopy grp)
  note unf = "1.prems"(1) [unfolded scanGroup.simps [of i slotsUsed tasksCopy grp]]
  show ?case
  proof (cases "i < length tasksCopy")
    case False
    with unf "1.prems"(2) show ?thesis by simp
  next
    case True
    note lt = this
    let ?task = "tasksCopy ! i"
    consider (skip) "task_type ?task = PICKUP_DELIVERY \<and> slotsUsed \<ge> 3"
      | (stop) "\<not> (task_type ?task = PICKUP_DELIVERY \<and> slotsUsed \<ge> 3)" "slotsUsed \<ge> 4"
      | (admit) "\<not> (task_type ?task = PICKUP_DELIVERY \<and> slotsUsed \<ge> 3)" "\<not> slotsUsed \<ge> 4"
      by blast
    then show ?thesis
    proof cases
      case skip
      with lt unf "1.IH"(1) [OF lt refl] "1.prems"(2,3) show ?thesis
        by (simp add: Let_def)
    next
      case stop
      with lt unf "1.prems"(2) show ?thesis by (auto simp: Let_def)
    next
      case admit
      have run: "scanGroup i (slotsAfter slotsUsed ?task)
          (take i tasksCopy @ drop (i + 1) tasksCopy) (grp @ [?task]) = (tc', g')"
        using lt admit unf by (auto simp: Let_def)
      have cap: "capacityRespected s0 (grp @ [?task])"
        using admit "1.prems"(2,3) slotsAfter_le [of slotsUsed ?task]
        by (auto simp: capacityRespected_snoc)
      have st: "slotsAfter slotsUsed ?task = foldl slotsAfter s0 (grp @ [?task])"
        using "1.prems"(3) by simp
      from "1.IH"(2) [OF lt refl _ _ run cap st] admit show ?thesis by blast
    qed
  qed
qed

lemma scheduleLoop_Nil: "scheduleLoop [] gs = gs"
  by (simp add: scheduleLoop.simps [of "[]" gs])

lemma scheduleLoop_mset:
  "mset (concat (scheduleLoop tc gs)) = mset tc + mset (concat gs)"
proof (induction tc gs rule: scheduleLoop.induct)
  case (1 tasksCopy grps)
  show ?case
  proof (cases "length tasksCopy > 0")
    case False
    then show ?thesis by (simp add: scheduleLoop_Nil)
  next
    case True
    obtain tc' g where sg: "scanGroup 0 0 tasksCopy [] = (tc', g)"
      by (cases "scanGroup 0 0 tasksCopy []")
    have ne: "g \<noteq> []" using scanGroup_first_admitted [OF _ sg] True by simp
    have ms: "mset tc' + mset g = mset tasksCopy"
      using scanGroup_mset [OF sg] by simp
    have "mset (concat (scheduleLoop tasksCopy grps))
        = mset (concat (scheduleLoop tc' (grps @ [g])))"
      using True sg ne by (simp add: scheduleLoop.simps [of tasksCopy grps])
    also have "\<dots> = mset tc' + mset (concat (grps @ [g]))"
      using "1.IH" [OF True sg [symmetric]] ne by simp
    also have "\<dots> = mset tasksCopy + mset (concat grps)"
      using ms by (simp add: ac_simps)
    finally show ?thesis .
  qed
qed

lemma scheduleLoop_capacity:
  "\<forall>g \<in> set gs. capacityRespected 0 g \<Longrightarrow>
   \<forall>g \<in> set (scheduleLoop tc gs). capacityRespected 0 g"
proof (induction tc gs rule: scheduleLoop.induct)
  case (1 tasksCopy grps)
  show ?case
  proof (cases "length tasksCopy > 0")
    case False
    then show ?thesis using "1.prems" by (simp add: scheduleLoop_Nil)
  next
    case True
    obtain tc' g where sg: "scanGroup 0 0 tasksCopy [] = (tc', g)"
      by (cases "scanGroup 0 0 tasksCopy []")
    have cap: "capacityRespected 0 g"
      using scanGroup_capacity [OF sg, of 0] by simp
    show ?thesis
    proof (cases "length g = 0")
      case True
      then show ?thesis
        using \<open>length tasksCopy > 0\<close> sg "1.prems" by (simp add: scheduleLoop.simps [of tasksCopy grps])
    next
      case False
      have "\<forall>g \<in> set (scheduleLoop tc' (grps @ [g])). capacityRespected 0 g"
        using "1.IH" [OF True sg [symmetric] False] "1.prems" cap by simp
      then show ?thesis
        using \<open>length tasksCopy > 0\<close> sg False by (simp add: scheduleLoop.simps [of tasksCopy grps])
    qed
  qed
qed

text \<open>
  C3.  \<open>schedule\<close> is a total function (both loops terminate), its result is a
  permutation of the input (as multisets, so every input task appears exactly once),
  and in every group it builds, starting from occupancy 0 and following the update rule
  of \<open>slotsAfter\<close>, the running occupancy never exceeds 4 and no PICKUP_DELIVERY
  task is admitted at an occupancy of 3 or more.
\<close>

theorem schedule_feasible_permutation:
  "mset (schedule tasks) = mset tasks
   \<and> length (schedule tasks) = length tasks
   \<and> (\<forall>g \<in> set (scheduleGroups tasks). capacityRespected 0 g)"
proof -
  have m: "mset (schedule tasks) = mset tasks"
    using scheduleLoop_mset [of tasks "[]"] by (simp add: schedule_def scheduleGroups_def)
  have c: "\<forall>g \<in> set (scheduleGroups tasks). capacityRespected 0 g"
    using scheduleLoop_capacity [of "[]" tasks] by (simp add: scheduleGroups_def)
  from m have "length (schedule tasks) = length tasks" by (rule mset_eq_length)
  with m c show ?thesis by blast
qed

definition fifoDemo :: "Task list" where
  "fifoDemo =
     [demoTask DELIVERY\<lparr>task_id := 1\<rparr>, demoTask DELIVERY\<lparr>task_id := 2\<rparr>,
      demoTask DELIVERY\<lparr>task_id := 3\<rparr>, demoTask PICKUP_DELIVERY\<lparr>task_id := 4\<rparr>,
      demoTask DELIVERY\<lparr>task_id := 5\<rparr>, demoTask DELIVERY\<lparr>task_id := 6\<rparr>]"

lemma fifoDemo_groups:
  "map (map task_id) (scheduleGroups fifoDemo) = [[1, 2, 3, 5], [4, 6]]"
  by code_simp

theorem schedule_feasible_permutation_witness:
  "map (map task_id) (scheduleGroups fifoDemo) = [[1, 2, 3, 5], [4, 6]]
   \<and> list_all (capacityRespected 0) (scheduleGroups fifoDemo)
   \<and> mset (schedule fifoDemo) = mset fifoDemo"
  using schedule_feasible_permutation [of fifoDemo] fifoDemo_groups
  by (simp add: list_all_iff)

section \<open>Genetic scheduler: chromosome operators (GeneticAlgorithm)\<close>

text \<open>
  A JavaScript array of tasks can hold \<open>undefined\<close> or \<open>null\<close> (the offspring arrays
  start as \<open>new Array(length).fill(null)\<close>), so its elements are optional tasks.
  Reading outside the array gives \<open>undefined\<close>; writing at an index beyond the end
  extends the array; writing at a negative index sets a property and leaves the
  elements alone.  Reading a field of \<open>undefined\<close> raises a \<open>TypeError\<close>.
\<close>

type_synonym TaskArray = "Task option list"

datatype error = TypeError

definition js_get :: "'a option list \<Rightarrow> int \<Rightarrow> 'a option" where
  "js_get a i = (if 0 \<le> i \<and> i < int (length a) then a ! nat i else None)"

definition js_set :: "'a option list \<Rightarrow> int \<Rightarrow> 'a option \<Rightarrow> 'a option list" where
  "js_set a i v =
     (if i < 0 then a
      else if i < int (length a) then a[nat i := v]
      else a @ replicate (nat i - length a) None @ [v])"

definition js_slice :: "'a option list \<Rightarrow> int \<Rightarrow> int \<Rightarrow> 'a option list" where
  "js_slice a start end =
     (let n = int (length a);
          k = (if start < 0 then max (n + start) 0 else min start n);
          final = (if end < 0 then max (n + end) 0 else min end n)
      in take (nat (final - k)) (drop (nat k) a))"

text \<open>
  \<open>Math.floor(Math.random() * n)\<close>, as a function of the value \<open>r\<close> that
  \<open>Math.random()\<close> returned.
\<close>

definition randomInt :: "real \<Rightarrow> int \<Rightarrow> int" where
  "randomInt r n = \<lfloor>r * of_int n\<rfloor>"

text \<open>
  \<open>createRandomChromosome\<close>, as a function of the shuffled copy of the tasks (the
  order produced by \<open>sort(() => Math.random() - 0.5)\<close> depends on the engine).
\<close>

definition groupStep ::
  "Task list list \<times> Task list \<times> int \<Rightarrow> Task \<Rightarrow> Task list list \<times> Task list \<times> int" where
  "groupStep st task =
     (case st of
        (taskGroups, currentGroup, slotsUsed) \<Rightarrow>
          (case (if task_type task = PICKUP_DELIVERY \<and> slotsUsed \<ge> 3
                 then (taskGroups @ [currentGroup], [], 0)
                 else if slotsUsed \<ge> 4 then (taskGroups @ [currentGroup], [], 0)
                 else (taskGroups, currentGroup, slotsUsed)) of
             (taskGroups1, currentGroup1, slotsUsed1) \<Rightarrow>
               (taskGroups1, currentGroup1 @ [task], slotsAfter slotsUsed1 task)))"

definition createRandomChromosome :: "Task list \<Rightarrow> TaskArray" where
  "createRandomChromosome shuffledTasks =
     (case foldl groupStep ([], [], 0) shuffledTasks of
        (taskGroups, currentGroup, slotsUsed) \<Rightarrow>
          map Some (concat (if length currentGroup > 0 then taskGroups @ [currentGroup]
                            else taskGroups)))"

definition segmentIds :: "TaskArray \<Rightarrow> int \<Rightarrow> int \<Rightarrow> int set" where
  "segmentIds offspring point1 point2 =
     foldl (\<lambda>usedTasks i.
              case js_get offspring i of
                None \<Rightarrow> usedTasks
              | Some t \<Rightarrow> insert (task_id t) usedTasks)
       {} [point1..point2]"

text \<open>
  The \<open>while\<close> loop of \<open>fillRemainingPositions\<close> runs for ever when every id of the
  parent is in \<open>usedTasks\<close>; not returning is the value \<open>None\<close>.
\<close>

partial_function (option) findUnused ::
  "int set \<Rightarrow> TaskArray \<Rightarrow> int \<Rightarrow> (error + int) option" where
  "findUnused usedTasks parent j =
     (case js_get parent j of
        None \<Rightarrow> Some (Inl TypeError)
      | Some t \<Rightarrow>
          if task_id t \<in> usedTasks
          then findUnused usedTasks parent ((j + 1) mod int (length parent))
          else Some (Inr j))"

declare findUnused.simps [code]

function fillLoop ::
  "TaskArray \<Rightarrow> int \<Rightarrow> int \<Rightarrow> int \<Rightarrow> int set \<Rightarrow> TaskArray \<Rightarrow> (error + TaskArray) option" where
  "fillLoop parent point1 point2 i usedTasks offspring =
     (if i < int (length parent) then
        (if i < point1 \<or> i > point2 then
           (case findUnused usedTasks parent i of
              None \<Rightarrow> None
            | Some (Inl e) \<Rightarrow> Some (Inl e)
            | Some (Inr j) \<Rightarrow>
                (case js_get parent j of
                   None \<Rightarrow> Some (Inl TypeError)
                 | Some t \<Rightarrow>
                     fillLoop parent point1 point2 (i + 1) (insert (task_id t) usedTasks)
                       (js_set offspring i (Some t))))
         else fillLoop parent point1 point2 (i + 1) usedTasks offspring)
      else Some (Inr offspring))"
  by pat_completeness auto
termination
  by (relation "measure (\<lambda>(parent, point1, point2, i, usedTasks, offspring).
        nat (int (length parent) - i))") auto

declare fillLoop.simps [simp del]

definition fillRemainingPositions ::
  "TaskArray \<Rightarrow> TaskArray \<Rightarrow> int \<Rightarrow> int \<Rightarrow> (error + TaskArray) option" where
  "fillRemainingPositions parent offspring point1 point2 =
     fillLoop parent point1 point2 0 (segmentIds offspring point1 point2) offspring"

definition copySegments ::
  "TaskArray \<Rightarrow> TaskArray \<Rightarrow> int \<Rightarrow> int \<Rightarrow> TaskArray \<times> TaskArray \<Rightarrow> TaskArray \<times> TaskArray" where
  "copySegments chromosome1 chromosome2 point1 point2 offs =
     foldl (\<lambda>(offspring1, offspring2) i.
              (js_set offspring1 i (js_get chromosome2 i),
               js_set offspring2 i (js_get chromosome1 i)))
       offs [point1..point2]"

definition crossoverArrays ::
  "real \<Rightarrow> real \<Rightarrow> TaskArray \<Rightarrow> TaskArray \<Rightarrow> (error + TaskArray \<times> TaskArray) option" where
  "crossoverArrays r1 r2 chromosome1 chromosome2 =
     (let len = int (length chromosome1);
          point1 = randomInt r1 (len - 1);
          point2 = point1 + randomInt r2 (len - point1)
      in case copySegments chromosome1 chromosome2 point1 point2
                (replicate (length chromosome1) None, replicate (length chromosome1) None) of
           (offspring1, offspring2) \<Rightarrow>
             (case fillRemainingPositions chromosome1 offspring1 point1 point2 of
                None \<Rightarrow> None
              | Some (Inl e) \<Rightarrow> Some (Inl e)
              | Some (Inr filled1) \<Rightarrow>
                  (case fillRemainingPositions chromosome2 offspring2 point1 point2 of
                     None \<Rightarrow> None
                   | Some (Inl e) \<Rightarrow> Some (Inl e)
                   | Some (Inr filled2) \<Rightarrow> Some (Inr (filled1, filled2)))))"

text \<open>
  The two mutations, as functions of the values returned by \<open>Math.random()\<close>.  The
  destructuring assignment of the swap reads both elements before it writes.
\<close>

definition swapMutation :: "real \<Rightarrow> real \<Rightarrow> TaskArray \<Rightarrow> TaskArray" where
  "swapMutation r1 r2 chromosome =
     (let len = int (length chromosome);
          index1 = randomInt r1 len;
          index2 = randomInt r2 len;
          new1 = js_get chromosome index2;
          new2 = js_get chromosome index1
      in js_set (js_set chromosome index1 new1) index2 new2)"

definition inversionMutation :: "real \<Rightarrow> real \<Rightarrow> TaskArray \<Rightarrow> TaskArray" where
  "inversionMutation r1 r2 chromosome =
     (let len = int (length chromosome);
          point1 = randomInt r1 (len - 1);
          point2 = point1 + randomInt r2 (len - point1);
          segment = rev (js_slice chromosome point1 (point2 + 1))
      in foldl (\<lambda>c i. js_set c i (js_get segment (i - point1))) chromosome [point1..point2])"

definition mutateArray :: "real \<Rightarrow> real \<Rightarrow> real \<Rightarrow> real \<Rightarrow> real \<Rightarrow> TaskArray \<Rightarrow> TaskArray" where
  "mutateArray mutationRate r0 r1 r2 r3 chromosome =
     (if r0 > mutationRate then chromosome
      else if r1 < 0.5 then swapMutation r2 r3 chromosome
      else inversionMutation r2 r3 chromosome)"

lemma js_get_in: "0 \<le> i \<Longrightarrow> i < int (length a) \<Longrightarrow> js_get a i = a ! nat i"
  by (simp add: js_get_def)

lemma js_get_nat: "k < length a \<Longrightarrow> js_get a (int k) = a ! k"
  by (simp add: js_get_def)

lemma js_set_in: "0 \<le> i \<Longrightarrow> i < int (length a) \<Longrightarrow> js_set a i v = a[nat i := v]"
  by (simp add: js_set_def)

lemma length_js_set_in: "i < int (length a) \<Longrightarrow> length (js_set a i v) = length a"
  by (simp add: js_set_def)

lemma randomInt_range:
  assumes "0 \<le> r" "r < 1" "0 < n"
  shows "0 \<le> randomInt r n \<and> randomInt r n < n"
proof -
  have "0 \<le> r * of_int n" using assms by simp
  moreover have "r * of_int n < of_int n" using assms by simp
  ultimately show ?thesis
    unfolding randomInt_def by (simp add: floor_less_iff)
qed

lemma randomInt_zero: "randomInt r 0 = 0"
  by (simp add: randomInt_def)

lemma crossover_points:
  assumes r1: "0 \<le> r1" "r1 < 1" and r2: "0 \<le> r2" "r2 < 1" and n: "0 < n"
  defines "point1 \<equiv> randomInt r1 (n - 1)"
  defines "point2 \<equiv> point1 + randomInt r2 (n - point1)"
  shows "0 \<le> point1 \<and> point1 \<le> point2 \<and> point2 < n"
proof -
  have p1: "0 \<le> point1 \<and> point1 < n"
  proof (cases "n = 1")
    case True
    then show ?thesis by (simp add: point1_def randomInt_zero)
  next
    case False
    with n have "0 < n - 1" by simp
    from randomInt_range [OF r1 this] show ?thesis by (simp add: point1_def)
  qed
  then have "0 < n - point1" by simp
  from randomInt_range [OF r2 this] p1 show ?thesis by (simp add: point2_def)
qed

text \<open>Writing a function of the index into a range of positions that lie in the array.\<close>

lemma foldl_js_set_range:
  assumes "0 \<le> a" "b < int (length xs)"
  shows "length (foldl (\<lambda>c i. js_set c i (f i)) xs [a..b]) = length xs
     \<and> (\<forall>k < length xs. foldl (\<lambda>c i. js_set c i (f i)) xs [a..b] ! k =
           (if a \<le> int k \<and> int k \<le> b then f (int k) else xs ! k))"
  using assms
proof (induction "nat (b + 1 - a)" arbitrary: b)
  case 0
  then have "[a..b] = []" by simp
  with 0 show ?case by auto
next
  case (Suc m)
  then have le: "a \<le> b" by simp
  then have split: "[a..b] = [a..b - 1] @ [b]" by (rule upto_rec2)
  have m: "m = nat (b - 1 + 1 - a)" using Suc(2) by simp
  have bl: "b - 1 < int (length xs)" using Suc.prems by simp
  note IH = Suc(1) [OF m Suc.prems(1) bl]
  let ?c = "foldl (\<lambda>c i. js_set c i (f i)) xs [a..b - 1]"
  have len: "length ?c = length xs" using IH by blast
  have b0: "0 \<le> b" using le Suc.prems by simp
  have res: "foldl (\<lambda>c i. js_set c i (f i)) xs [a..b] = ?c[nat b := f b]"
    using split len b0 Suc.prems(2) by (simp add: js_set_in)
  show ?case
  proof (intro conjI allI impI)
    show "length (foldl (\<lambda>c i. js_set c i (f i)) xs [a..b]) = length xs"
      using res len by simp
  next
    fix k assume k: "k < length xs"
    show "foldl (\<lambda>c i. js_set c i (f i)) xs [a..b] ! k =
        (if a \<le> int k \<and> int k \<le> b then f (int k) else xs ! k)"
    proof (cases "k = nat b")
      case True
      then show ?thesis using res len k b0 le by simp
    next
      case False
      then have "int k \<noteq> b" using b0 by auto
      then show ?thesis using res len k False IH by auto
    qed
  qed
qed

lemma copySegments_split:
  "foldl (\<lambda>(offspring1, offspring2) i.
              (js_set offspring1 i (f i), js_set offspring2 i (g i))) (o1, o2) is
   = (foldl (\<lambda>c i. js_set c i (f i)) o1 is, foldl (\<lambda>c i. js_set c i (g i)) o2 is)"
  by (induction "is" arbitrary: o1 o2) simp_all

lemma groupStep_concat:
  "foldl groupStep (g, c, s) xs = (g', c', s') \<Longrightarrow> concat g' @ c' = concat g @ c @ xs"
proof (induction xs arbitrary: g c s)
  case Nil
  then show ?case by simp
next
  case (Cons a xs)
  obtain g1 c1 s1 where st: "groupStep (g, c, s) a = (g1, c1, s1)"
    by (cases "groupStep (g, c, s) a")
  then have "concat g1 @ c1 = concat g @ c @ [a]"
    by (auto simp: groupStep_def split: if_splits)
  with Cons.IH [of g1 c1 s1] Cons.prems st show ?case by simp
qed

lemma createRandomChromosome_eq: "createRandomChromosome shuffledTasks = map Some shuffledTasks"
proof -
  obtain g c s where f: "foldl groupStep ([], [], 0) shuffledTasks = (g, c, s)"
    by (cases "foldl groupStep ([], [], 0) shuffledTasks")
  from groupStep_concat [OF f] have "concat g @ c = shuffledTasks" by simp
  then show ?thesis using f by (auto simp: createRandomChromosome_def)
qed

text \<open>
  The invariant of the fill loop at index \<open>i\<close>, for a parent holding the tasks \<open>p\<close>:
  the positions filled so far are the segment and the positions below \<open>i\<close>; the used
  ids are the ids of the tasks placed; the tasks placed come from \<open>p\<close> and have
  pairwise different ids.
\<close>

definition fillInv :: "Task list \<Rightarrow> int \<Rightarrow> int \<Rightarrow> int \<Rightarrow> int set \<Rightarrow> TaskArray \<Rightarrow> bool" where
  "fillInv p point1 point2 i used off \<longleftrightarrow>
     length off = length p
     \<and> (\<forall>k < length p. (off ! k = None) = (i \<le> int k \<and> (int k < point1 \<or> point2 < int k)))
     \<and> used = {task_id t | t k. k < length p \<and> off ! k = Some t}
     \<and> (\<forall>k < length p. \<forall>t. off ! k = Some t \<longrightarrow> t \<in> set p)
     \<and> (\<forall>k < length p. \<forall>l < length p. \<forall>t u.
           off ! k = Some t \<longrightarrow> off ! l = Some u \<longrightarrow> task_id t = task_id u \<longrightarrow> k = l)"

lemma findUnused_steps:
  "j < length p \<Longrightarrow> task_id (p ! ((j + d) mod length p)) \<notin> used \<Longrightarrow>
   \<exists>j'. findUnused used (map Some p) (int j) = Some (Inr (int j'))
        \<and> j' < length p \<and> task_id (p ! j') \<notin> used"
proof (induction d arbitrary: j)
  case 0
  then show ?case
    by (subst findUnused.simps) (auto simp: js_get_nat)
next
  case (Suc d)
  show ?case
  proof (cases "task_id (p ! j) \<in> used")
    case False
    with Suc.prems(1) show ?thesis
      by (subst findUnused.simps) (auto simp: js_get_nat)
  next
    case True
    let ?j1 = "(j + 1) mod length p"
    have n: "0 < length p" using Suc.prems(1) by (cases p) auto
    then have j1: "?j1 < length p" by simp
    have "(?j1 + d) mod length p = (j + Suc d) mod length p"
      by (simp add: mod_add_left_eq)
    with Suc.prems(2) have "task_id (p ! ((?j1 + d) mod length p)) \<notin> used" by simp
    from Suc.IH [OF j1 this] obtain j' where
      r: "findUnused used (map Some p) (int ?j1) = Some (Inr (int j'))"
        "j' < length p" "task_id (p ! j') \<notin> used" by blast
    have "(int j + 1) mod int (length p) = int ?j1"
      by (simp add: zmod_int add.commute)
    then have "findUnused used (map Some p) (int j) = findUnused used (map Some p) (int ?j1)"
      using True Suc.prems(1) by (subst findUnused.simps) (simp add: js_get_nat)
    with r show ?thesis by auto
  qed
qed

lemma findUnused_terminates:
  assumes "j < length p" "m < length p" "task_id (p ! m) \<notin> used"
  shows "\<exists>j'. findUnused used (map Some p) (int j) = Some (Inr (int j'))
        \<and> j' < length p \<and> task_id (p ! j') \<notin> used"
proof -
  let ?n = "length p"
  let ?d = "(m + ?n - j) mod ?n"
  have "(j + ?d) mod ?n = (j + (m + ?n - j)) mod ?n" by (simp add: mod_add_right_eq)
  also have "\<dots> = (m + ?n) mod ?n" using assms(1) by simp
  also have "\<dots> = m" using assms(2) by simp
  finally have "task_id (p ! ((j + ?d) mod ?n)) \<notin> used" using assms(3) by simp
  from findUnused_steps [OF assms(1) this] show ?thesis .
qed

lemma fillInv_unused_exists:
  assumes dist: "distinct (map task_id p)"
    and inv: "fillInv p point1 point2 i used off"
    and i: "0 \<le> i" "i < int (length p)" "i < point1 \<or> point2 < i"
  shows "\<exists>m < length p. task_id (p ! m) \<notin> used"
proof (rule ccontr)
  assume "\<not> ?thesis"
  then have all: "\<forall>m < length p. task_id (p ! m) \<in> used" by simp
  let ?n = "length p"
  let ?F = "{k. k < ?n \<and> off ! k \<noteq> None}"
  have hole: "off ! nat i = None" using inv i by (simp add: fillInv_def)
  have "?F \<subseteq> {..<?n} - {nat i}" using hole by auto
  then have "card ?F \<le> card ({..<?n} - {nat i})" by (intro card_mono) auto
  also have "\<dots> < ?n" using i by simp
  finally have cF: "card ?F < ?n" .
  have u: "used = {task_id t | t k. k < length p \<and> off ! k = Some t}"
    using inv by (simp add: fillInv_def)
  have "used = (\<lambda>k. task_id (the (off ! k))) ` ?F"
  proof (intro set_eqI iffI)
    fix a assume "a \<in> used"
    then obtain t k where "a = task_id t" "k < length p" "off ! k = Some t" using u by auto
    then have "k \<in> ?F" "a = task_id (the (off ! k))" by simp_all
    then show "a \<in> (\<lambda>k. task_id (the (off ! k))) ` ?F" by (rule image_eqI [rotated])
  next
    fix a assume "a \<in> (\<lambda>k. task_id (the (off ! k))) ` ?F"
    then obtain k where k: "k < length p" "off ! k \<noteq> None" "a = task_id (the (off ! k))"
      by auto
    then obtain t where "off ! k = Some t" by auto
    with k show "a \<in> used" unfolding u by auto
  qed
  then have "card used \<le> card ?F" by (simp add: card_image_le)
  with cF have cu: "card used < ?n" by simp
  have fin: "finite used" using \<open>used = _ ` ?F\<close> by simp
  have "set (map task_id p) \<subseteq> used" using all by (auto simp: in_set_conv_nth)
  then have "card (set (map task_id p)) \<le> card used" using fin by (rule card_mono [rotated])
  moreover have "card (set (map task_id p)) = ?n"
    using distinct_card [OF dist] by simp
  ultimately show False using cu by simp
qed

lemma fillInv_skip:
  assumes "fillInv p point1 point2 i used off" "point1 \<le> i" "i \<le> point2"
  shows "fillInv p point1 point2 (i + 1) used off"
proof -
  have "\<forall>k < length p. (i + 1 \<le> int k \<and> (int k < point1 \<or> point2 < int k))
      = (i \<le> int k \<and> (int k < point1 \<or> point2 < int k))"
    using assms(2,3) by auto
  then show ?thesis using assms(1) unfolding fillInv_def by simp
qed

lemma fillInv_fill:
  assumes inv: "fillInv p point1 point2 i used off"
    and i: "0 \<le> i" "i < int (length p)" "i < point1 \<or> point2 < i"
    and j: "j < length p" "task_id (p ! j) \<notin> used"
  shows "fillInv p point1 point2 (i + 1) (insert (task_id (p ! j)) used)
           (off[nat i := Some (p ! j)])"
proof -
  let ?off = "off[nat i := Some (p ! j)]"
  have len: "length off = length p" using inv by (simp add: fillInv_def)
  have ni: "nat i < length p" using i by simp
  have nth: "\<And>k. k < length p \<Longrightarrow> ?off ! k = (if k = nat i then Some (p ! j) else off ! k)"
    using len by (simp add: nth_list_update)
  have b: "\<forall>k < length p. (?off ! k = None) = (i + 1 \<le> int k \<and> (int k < point1 \<or> point2 < int k))"
  proof (intro allI impI)
    fix k assume k: "k < length p"
    show "(?off ! k = None) = (i + 1 \<le> int k \<and> (int k < point1 \<or> point2 < int k))"
    proof (cases "k = nat i")
      case True
      then show ?thesis using nth [OF k] i by simp
    next
      case False
      then have "(off ! k = None) = (i \<le> int k \<and> (int k < point1 \<or> point2 < int k))"
        using inv k by (simp add: fillInv_def)
      moreover have "int k \<noteq> i" using False i by auto
      ultimately show ?thesis using nth [OF k] False by auto
    qed
  qed
  have hole: "off ! nat i = None" using inv i by (simp add: fillInv_def)
  have u: "used = {task_id t | t k. k < length p \<and> off ! k = Some t}"
    using inv by (simp add: fillInv_def)
  have c: "insert (task_id (p ! j)) used = {task_id t | t k. k < length p \<and> ?off ! k = Some t}"
  proof (intro set_eqI iffI)
    fix a assume "a \<in> insert (task_id (p ! j)) used"
    then consider "a = task_id (p ! j)" | "a \<in> used" by blast
    then show "a \<in> {task_id t | t k. k < length p \<and> ?off ! k = Some t}"
    proof cases
      case 1
      have "?off ! nat i = Some (p ! j)" using nth [OF ni] by simp
      with 1 ni show ?thesis by blast
    next
      case 2
      then obtain t k where tk: "a = task_id t" "k < length p" "off ! k = Some t"
        using u by auto
      then have "k \<noteq> nat i" using hole by auto
      then have "?off ! k = Some t" using tk nth [of k] by simp
      with tk show ?thesis by blast
    qed
  next
    fix a assume "a \<in> {task_id t | t k. k < length p \<and> ?off ! k = Some t}"
    then obtain t k where tk: "a = task_id t" "k < length p" "?off ! k = Some t" by auto
    show "a \<in> insert (task_id (p ! j)) used"
    proof (cases "k = nat i")
      case True
      then show ?thesis using tk nth [of k] by simp
    next
      case False
      then have "off ! k = Some t" using tk nth [of k] by simp
      then show ?thesis using tk u by auto
    qed
  qed
  have d: "\<forall>k < length p. \<forall>t. ?off ! k = Some t \<longrightarrow> t \<in> set p"
  proof (intro allI impI)
    fix k t assume k: "k < length p" and s: "?off ! k = Some t"
    show "t \<in> set p"
    proof (cases "k = nat i")
      case True
      then show ?thesis using s nth [OF k] j by auto
    next
      case False
      then show ?thesis using s nth [OF k] inv k by (simp add: fillInv_def)
    qed
  qed
  have e0: "\<forall>k < length p. \<forall>l < length p. \<forall>t u.
           off ! k = Some t \<longrightarrow> off ! l = Some u \<longrightarrow> task_id t = task_id u \<longrightarrow> k = l"
    using inv by (simp add: fillInv_def)
  have fresh: "\<And>k t. k < length p \<Longrightarrow> off ! k = Some t \<Longrightarrow> task_id t \<noteq> task_id (p ! j)"
    using u j(2) by auto
  have e: "\<forall>k < length p. \<forall>l < length p. \<forall>t u.
           ?off ! k = Some t \<longrightarrow> ?off ! l = Some u \<longrightarrow> task_id t = task_id u \<longrightarrow> k = l"
  proof (intro allI impI)
    fix k l t u
    assume k: "k < length p" and l: "l < length p"
      and kt: "?off ! k = Some t" and lu: "?off ! l = Some u" and same: "task_id t = task_id u"
    show "k = l"
    proof (cases "k = nat i")
      case True
      note ki = this
      show ?thesis
      proof (cases "l = nat i")
        case True
        with ki show ?thesis by simp
      next
        case False
        then have "off ! l = Some u" using lu nth [OF l] by simp
        from fresh [OF l this] have "task_id u \<noteq> task_id (p ! j)" .
        moreover have "t = p ! j" using kt ki nth [OF k] by simp
        ultimately show ?thesis using same by simp
      qed
    next
      case False
      then have ok: "off ! k = Some t" using kt nth [OF k] by simp
      show ?thesis
      proof (cases "l = nat i")
        case True
        then have "u = p ! j" using lu nth [OF l] by simp
        with fresh [OF k ok] same show ?thesis by simp
      next
        case False
        then have "off ! l = Some u" using lu nth [OF l] by simp
        with e0 k l ok same show ?thesis by blast
      qed
    qed
  qed
  show ?thesis
    unfolding fillInv_def using len b c d e by simp
qed

lemma fillLoop_completes:
  assumes dist: "distinct (map task_id p)"
  shows "fillInv p point1 point2 i used off \<Longrightarrow> 0 \<le> i \<Longrightarrow> i \<le> int (length p) \<Longrightarrow>
     \<exists>off' used'. fillLoop (map Some p) point1 point2 i used off = Some (Inr off')
        \<and> fillInv p point1 point2 (int (length p)) used' off'"
proof (induction "nat (int (length p) - i)" arbitrary: i used off)
  case 0
  then have "i = int (length p)" by simp
  with 0 show ?case
    by (subst fillLoop.simps) auto
next
  case (Suc m)
  then have lt: "i < int (length p)" by simp
  have m: "m = nat (int (length p) - (i + 1))" using Suc(2) by simp
  have i1: "0 \<le> i + 1" "i + 1 \<le> int (length p)" using Suc.prems lt by simp_all
  show ?case
  proof (cases "i < point1 \<or> point2 < i")
    case False
    then have inv1: "fillInv p point1 point2 (i + 1) used off"
      using fillInv_skip [OF Suc.prems(1)] by simp
    have "fillLoop (map Some p) point1 point2 i used off
        = fillLoop (map Some p) point1 point2 (i + 1) used off"
      using lt False by (subst fillLoop.simps) simp
    with Suc(1) [OF m inv1 i1] show ?thesis by simp
  next
    case True
    from fillInv_unused_exists [OF dist Suc.prems(1) Suc.prems(2) lt True]
    obtain k where k: "k < length p" "task_id (p ! k) \<notin> used" by blast
    have ni: "nat i < length p" using lt Suc.prems(2) by simp
    from findUnused_terminates [OF ni k] obtain j where
      j: "findUnused used (map Some p) (int (nat i)) = Some (Inr (int j))"
        "j < length p" "task_id (p ! j) \<notin> used" by blast
    have fu: "findUnused used (map Some p) i = Some (Inr (int j))"
      using j(1) Suc.prems(2) by simp
    have len: "length off = length p" using Suc.prems(1) by (simp add: fillInv_def)
    have set: "js_set off i (Some (p ! j)) = off[nat i := Some (p ! j)]"
      using Suc.prems(2) lt len by (simp add: js_set_in)
    have inv1: "fillInv p point1 point2 (i + 1) (insert (task_id (p ! j)) used)
        (off[nat i := Some (p ! j)])"
      by (rule fillInv_fill [OF Suc.prems(1) Suc.prems(2) lt True j(2,3)])
    have "fillLoop (map Some p) point1 point2 i used off
        = fillLoop (map Some p) point1 point2 (i + 1) (insert (task_id (p ! j)) used)
            (off[nat i := Some (p ! j)])"
      using lt True fu j(2) set
      by (subst fillLoop.simps) (simp add: js_get_nat)
    with Suc(1) [OF m inv1 i1] show ?thesis by simp
  qed
qed

lemma fillInv_final_permutation:
  assumes dist: "distinct (map task_id p)"
    and inv: "fillInv p point1 point2 (int (length p)) used off"
  shows "mset off = mset (map Some p)"
proof -
  let ?n = "length p"
  have len: "length off = ?n" using inv by (simp add: fillInv_def)
  have filled: "\<forall>k < ?n. off ! k \<noteq> None" using inv by (simp add: fillInv_def)
  define xs where "xs = map the off"
  have lxs: "length xs = ?n" using len by (simp add: xs_def)
  have off: "off = map Some xs"
    using len filled by (intro nth_equalityI) (auto simp: xs_def)
  have nth: "\<And>k. k < ?n \<Longrightarrow> off ! k = Some (xs ! k)"
    using off lxs by (metis nth_map)
  have sub: "set xs \<subseteq> set p"
  proof
    fix t assume "t \<in> set xs"
    then obtain k where "k < ?n" "xs ! k = t" using lxs by (auto simp: in_set_conv_nth)
    with nth [of k] inv show "t \<in> set p" by (auto simp: fillInv_def)
  qed
  have dids: "distinct (map task_id xs)"
    unfolding distinct_conv_nth
  proof (intro allI impI)
    fix k l assume kl: "k < length (map task_id xs)" "l < length (map task_id xs)" "k \<noteq> l"
    then have k: "k < ?n" and l: "l < ?n" using lxs by simp_all
    have "task_id (xs ! k) \<noteq> task_id (xs ! l)"
      using nth [OF k] nth [OF l] inv k l kl(3) unfolding fillInv_def by blast
    then show "map task_id xs ! k \<noteq> map task_id xs ! l" using k l lxs by simp
  qed
  then have dxs: "distinct xs" by (rule distinct_map [THEN iffD1, THEN conjunct1])
  have dp: "distinct p" using dist by (rule distinct_map [THEN iffD1, THEN conjunct1])
  have "card (set xs) = card (set p)"
    using distinct_card [OF dxs] distinct_card [OF dp] lxs by simp
  with sub have "set xs = set p" by (intro card_subset_eq) auto
  then have "mset xs = mset p" using dxs dp by (simp add: set_eq_iff_mset_eq_distinct)
  then show ?thesis using off by simp
qed

lemma segmentIds_fold:
  "foldl (\<lambda>usedTasks i. case js_get off i of None \<Rightarrow> usedTasks
                           | Some t \<Rightarrow> insert (task_id t) usedTasks) S [a..b]
   = S \<union> (\<Union>i \<in> {a..b}. task_id ` set_option (js_get off i))"
proof (induction "nat (b + 1 - a)" arbitrary: b)
  case 0
  then have "[a..b] = []" "{a..b} = {}" by auto
  then show ?case by simp
next
  case (Suc m)
  then have le: "a \<le> b" by simp
  then have split: "[a..b] = [a..b - 1] @ [b]" by (rule upto_rec2)
  have m: "m = nat (b - 1 + 1 - a)" using Suc(2) by simp
  have range: "{a..b} = insert b {a..b - 1}" using le by auto
  show ?case
    unfolding split foldl_append Suc(1) [OF m] range
    by (cases "js_get off b") auto
qed

lemma segmentIds_eq:
  "segmentIds off point1 point2
   = {task_id t | t i. point1 \<le> i \<and> i \<le> point2 \<and> js_get off i = Some t}"
  unfolding segmentIds_def segmentIds_fold by auto blast

lemma fillInv_initial:
  assumes dist: "distinct (map task_id p)" and perm: "mset q = mset p"
    and pts: "0 \<le> point1" "point1 \<le> point2" "point2 < int (length p)"
  defines "off \<equiv> foldl (\<lambda>c i. js_set c i (js_get (map Some q) i))
                     (replicate (length p) None) [point1..point2]"
  shows "fillInv p point1 point2 0 (segmentIds off point1 point2) off"
proof -
  let ?n = "length p"
  have lq: "length q = ?n" using perm by (rule mset_eq_length)
  have sq: "set q = set p" using perm by (rule mset_eq_setD)
  have "mset (map task_id q) = mset (map task_id p)" using perm by simp
  then have dq: "distinct (map task_id q)" using dist by (metis mset_eq_imp_distinct_iff)
  have p2: "point2 < int (length (replicate ?n (None :: Task option)))" using pts by simp
  note F = foldl_js_set_range [OF pts(1) p2, of "\<lambda>i. js_get (map Some q) i", folded off_def]
  have len: "length off = ?n" using F by simp
  have nth: "\<And>k. k < ?n \<Longrightarrow>
      off ! k = (if point1 \<le> int k \<and> int k \<le> point2 then Some (q ! k) else None)"
    using F lq by (simp add: js_get_nat)
  have b: "\<forall>k < ?n. (off ! k = None) = (0 \<le> int k \<and> (int k < point1 \<or> point2 < int k))"
    using nth by auto
  have c: "segmentIds off point1 point2 = {task_id t | t k. k < ?n \<and> off ! k = Some t}"
  proof (intro set_eqI iffI)
    fix a assume "a \<in> segmentIds off point1 point2"
    then obtain t i where ti: "a = task_id t" "point1 \<le> i" "i \<le> point2" "js_get off i = Some t"
      unfolding segmentIds_eq by auto
    then have "nat i < ?n" "off ! nat i = Some t"
      using pts len by (simp_all add: js_get_def)
    with ti(1) show "a \<in> {task_id t | t k. k < ?n \<and> off ! k = Some t}" by blast
  next
    fix a assume "a \<in> {task_id t | t k. k < ?n \<and> off ! k = Some t}"
    then obtain t k where tk: "a = task_id t" "k < ?n" "off ! k = Some t" by auto
    then have "point1 \<le> int k \<and> int k \<le> point2" using nth [of k] by (auto split: if_splits)
    moreover have "js_get off (int k) = Some t" using tk len by (simp add: js_get_nat)
    ultimately show "a \<in> segmentIds off point1 point2"
      unfolding segmentIds_eq using tk(1) by blast
  qed
  have d: "\<forall>k < ?n. \<forall>t. off ! k = Some t \<longrightarrow> t \<in> set p"
    using nth lq sq by (auto split: if_splits)
  have e: "\<forall>k < ?n. \<forall>l < ?n. \<forall>t u.
       off ! k = Some t \<longrightarrow> off ! l = Some u \<longrightarrow> task_id t = task_id u \<longrightarrow> k = l"
  proof (intro allI impI)
    fix k l t u
    assume k: "k < ?n" and l: "l < ?n" and kt: "off ! k = Some t" and lu: "off ! l = Some u"
      and same: "task_id t = task_id u"
    have "t = q ! k" "u = q ! l" using kt lu nth [OF k] nth [OF l] by (auto split: if_splits)
    then have "map task_id q ! k = map task_id q ! l" using same k l lq by simp
    then show "k = l" using nth_eq_iff_index_eq [OF dq] k l lq by simp
  qed
  show ?thesis unfolding fillInv_def using len b c d e by simp
qed

definition isPermutationOf :: "Task list \<Rightarrow> TaskArray \<Rightarrow> bool" where
  "isPermutationOf tasks chromosome \<longleftrightarrow> mset chromosome = mset (map Some tasks)"

lemma isPermutationOf_map:
  assumes "isPermutationOf tasks a"
  shows "\<exists>p. a = map Some p \<and> mset p = mset tasks"
proof -
  have "set a = Some ` set tasks"
    using assms mset_eq_setD [of a "map Some tasks"] by (simp add: isPermutationOf_def)
  then have "\<forall>v \<in> set a. v \<noteq> None" by auto
  then have a: "map Some (map the a) = a" by (induction a) auto
  have "mset (map the a) = image_mset the (mset a)" by simp
  also have "\<dots> = image_mset the (mset (map Some tasks))"
    using assms by (simp add: isPermutationOf_def)
  also have "\<dots> = mset (map the (map Some tasks))" by (simp only: mset_map)
  also have "map the (map Some tasks) = tasks" by (simp add: comp_def)
  finally show ?thesis using a by metis
qed

lemma fillRemainingPositions_permutation:
  assumes dist: "distinct (map task_id p)" and perm: "mset q = mset p"
    and pts: "0 \<le> point1" "point1 \<le> point2" "point2 < int (length p)"
  defines "off \<equiv> foldl (\<lambda>c i. js_set c i (js_get (map Some q) i))
                     (replicate (length p) None) [point1..point2]"
  shows "\<exists>filled. fillRemainingPositions (map Some p) off point1 point2 = Some (Inr filled)
           \<and> mset filled = mset (map Some p)"
proof -
  have inv: "fillInv p point1 point2 0 (segmentIds off point1 point2) off"
    unfolding off_def by (rule fillInv_initial [OF dist perm pts])
  from fillLoop_completes [OF dist inv] obtain filled used' where
    f: "fillLoop (map Some p) point1 point2 0 (segmentIds off point1 point2) off = Some (Inr filled)"
      "fillInv p point1 point2 (int (length p)) used' filled" by auto
  from fillInv_final_permutation [OF dist f(2)] f(1) show ?thesis
    by (simp add: fillRemainingPositions_def)
qed

lemma crossoverArrays_permutation:
  assumes dist: "distinct (map task_id tasks)" and ne: "tasks \<noteq> []"
    and c1: "isPermutationOf tasks chromosome1" and c2: "isPermutationOf tasks chromosome2"
    and r: "0 \<le> r1" "r1 < 1" "0 \<le> r2" "r2 < 1"
  shows "\<exists>offspring1 offspring2.
     crossoverArrays r1 r2 chromosome1 chromosome2 = Some (Inr (offspring1, offspring2))
     \<and> isPermutationOf tasks offspring1 \<and> isPermutationOf tasks offspring2"
proof -
  from isPermutationOf_map [OF c1] obtain p where p: "chromosome1 = map Some p" "mset p = mset tasks"
    by blast
  from isPermutationOf_map [OF c2] obtain q where q: "chromosome2 = map Some q" "mset q = mset tasks"
    by blast
  have lp: "length p = length tasks" and lq: "length q = length tasks"
    using p(2) q(2) by (auto dest: mset_eq_length)
  have dp: "distinct (map task_id p)"
    using dist p(2) by (metis mset_eq_imp_distinct_iff mset_map)
  have dq: "distinct (map task_id q)"
    using dist q(2) by (metis mset_eq_imp_distinct_iff mset_map)
  define point1 where "point1 = randomInt r1 (int (length chromosome1) - 1)"
  define point2 where "point2 = point1 + randomInt r2 (int (length chromosome1) - point1)"
  have n: "0 < int (length chromosome1)" using ne p(1) lp by simp
  have pts: "0 \<le> point1" "point1 \<le> point2" "point2 < int (length p)" "point2 < int (length q)"
    using crossover_points [OF r n] p(1) lp lq by (simp_all add: point1_def point2_def)
  define off1 where "off1 = foldl (\<lambda>c i. js_set c i (js_get (map Some q) i))
                     (replicate (length p) None) [point1..point2]"
  define off2 where "off2 = foldl (\<lambda>c i. js_set c i (js_get (map Some p) i))
                     (replicate (length q) None) [point1..point2]"
  have cs: "copySegments chromosome1 chromosome2 point1 point2
      (replicate (length chromosome1) None, replicate (length chromosome1) None) = (off1, off2)"
    unfolding copySegments_def copySegments_split off1_def off2_def using p(1) q(1) lp lq by simp
  from fillRemainingPositions_permutation [OF dp _ pts(1,2,3), of q] q(2) p(2)
  obtain f1 where f1: "fillRemainingPositions (map Some p) off1 point1 point2 = Some (Inr f1)"
      "mset f1 = mset (map Some p)" unfolding off1_def by auto
  from fillRemainingPositions_permutation [OF dq _ pts(1,2,4), of p] q(2) p(2)
  obtain f2 where f2: "fillRemainingPositions (map Some q) off2 point1 point2 = Some (Inr f2)"
      "mset f2 = mset (map Some q)" unfolding off2_def by auto
  have "crossoverArrays r1 r2 chromosome1 chromosome2 = Some (Inr (f1, f2))"
    unfolding crossoverArrays_def Let_def point1_def [symmetric] point2_def [symmetric] cs
    using f1(1) f2(1) p(1) q(1) by simp
  moreover have "isPermutationOf tasks f1" "isPermutationOf tasks f2"
    using f1(2) f2(2) p(2) q(2) by (simp_all add: isPermutationOf_def)
  ultimately show ?thesis by blast
qed

lemma swapMutation_mset:
  assumes ne: "chromosome \<noteq> []" and r: "0 \<le> r1" "r1 < 1" "0 \<le> r2" "r2 < 1"
  shows "mset (swapMutation r1 r2 chromosome) = mset chromosome"
proof -
  let ?n = "int (length chromosome)"
  have n: "0 < ?n" using ne by simp
  define index1 where "index1 = randomInt r1 ?n"
  define index2 where "index2 = randomInt r2 ?n"
  have i1: "0 \<le> index1" "index1 < ?n" and i2: "0 \<le> index2" "index2 < ?n"
    using randomInt_range [OF r(1,2) n] randomInt_range [OF r(3,4) n]
    by (simp_all add: index1_def index2_def)
  have "swapMutation r1 r2 chromosome
      = chromosome[nat index1 := chromosome ! nat index2, nat index2 := chromosome ! nat index1]"
    unfolding swapMutation_def Let_def index1_def [symmetric] index2_def [symmetric]
    using i1 i2 by (simp add: js_get_in js_set_in)
  also have "mset \<dots> = mset chromosome"
    using i1 i2 by (intro mset_swap) simp_all
  finally show ?thesis .
qed

lemma inversionMutation_mset:
  assumes ne: "chromosome \<noteq> []" and r: "0 \<le> r1" "r1 < 1" "0 \<le> r2" "r2 < 1"
  shows "mset (inversionMutation r1 r2 chromosome) = mset chromosome"
proof -
  let ?n = "int (length chromosome)"
  have n: "0 < ?n" using ne by simp
  define point1 where "point1 = randomInt r1 (?n - 1)"
  define point2 where "point2 = point1 + randomInt r2 (?n - point1)"
  have pts: "0 \<le> point1" "point1 \<le> point2" "point2 < ?n"
    using crossover_points [OF r n] by (simp_all add: point1_def point2_def)
  define a where "a = nat point1"
  define w where "w = nat (point2 + 1 - point1)"
  define mid where "mid = take w (drop a chromosome)"
  define segment where "segment = rev (js_slice chromosome point1 (point2 + 1))"
  have seg: "segment = rev mid"
    using pts by (simp add: segment_def js_slice_def mid_def w_def a_def min_def)
  have lmid: "length mid = w" using pts by (simp add: mid_def w_def a_def)
  have parts: "chromosome = take a chromosome @ mid @ drop (a + w) chromosome"
    unfolding mid_def by (metis append_take_drop_id drop_drop add.commute)
  define res where
    "res = foldl (\<lambda>c i. js_set c i (js_get segment (i - point1))) chromosome [point1..point2]"
  note F = foldl_js_set_range [OF pts(1) pts(3), of "\<lambda>i. js_get segment (i - point1)",
      folded res_def]
  have "res = take a chromosome @ segment @ drop (a + w) chromosome"
  proof (rule nth_equalityI)
    show "length res = length (take a chromosome @ segment @ drop (a + w) chromosome)"
      using F pts lmid seg by (simp add: a_def w_def)
  next
    fix k assume "k < length res"
    then have k: "k < length chromosome" using F by simp
    have la: "length (take a chromosome) = a" using pts by (simp add: a_def)
    have lseg: "length segment = w" using seg lmid by simp
    consider (before) "k < a" | (inside) "a \<le> k" "k < a + w" | (after) "a + w \<le> k" by linarith
    then show "res ! k = (take a chromosome @ segment @ drop (a + w) chromosome) ! k"
    proof cases
      case before
      then have "\<not> (point1 \<le> int k \<and> int k \<le> point2)" using pts unfolding a_def by linarith
      then have "res ! k = chromosome ! k" using F k by auto
      then show ?thesis using before la by (simp add: nth_append)
    next
      case inside
      then have "point1 \<le> int k \<and> int k \<le> point2" using pts unfolding a_def w_def by linarith
      then have "res ! k = js_get segment (int k - point1)" using F k by auto
      also have "int k - point1 = int (k - a)" using inside pts unfolding a_def by linarith
      also have "js_get segment (int (k - a)) = segment ! (k - a)"
      proof (rule js_get_nat)
        show "k - a < length segment" using inside lseg by simp
      qed
      finally have "res ! k = segment ! (k - a)" .
      moreover have "k - a < w" using inside by linarith
      ultimately show ?thesis using inside la lseg by (simp add: nth_append)
    next
      case after
      then have "\<not> (point1 \<le> int k \<and> int k \<le> point2)" using pts unfolding a_def w_def by linarith
      then have "res ! k = chromosome ! k" using F k by auto
      moreover have "\<not> k < a" "\<not> k - a < w" using after by linarith+
      then have "(take a chromosome @ segment @ drop (a + w) chromosome) ! k
          = drop (a + w) chromosome ! (k - a - w)"
        using la lseg by (simp add: nth_append)
      moreover have "drop (a + w) chromosome ! (k - a - w) = chromosome ! k"
        using after k by simp
      ultimately show ?thesis by simp
    qed
  qed
  then have "mset res = mset (take a chromosome) + mset mid + mset (drop (a + w) chromosome)"
    using seg by simp
  also have "\<dots> = mset (take a chromosome @ mid @ drop (a + w) chromosome)" by simp
  also have "\<dots> = mset chromosome" using parts by simp
  finally show ?thesis
    unfolding inversionMutation_def Let_def point1_def [symmetric] point2_def [symmetric]
      segment_def [symmetric] res_def [symmetric] .
qed

lemma mutateArray_mset:
  assumes "chromosome \<noteq> []" "0 \<le> r2" "r2 < 1" "0 \<le> r3" "r3 < 1"
  shows "mset (mutateArray mutationRate r0 r1 r2 r3 chromosome) = mset chromosome"
  using assms by (simp add: mutateArray_def swapMutation_mset inversionMutation_mset)

text \<open>
  C1 (as amended).  For every non-empty task list with pairwise distinct ids: the
  chromosome built from any shuffle of the tasks is a permutation of the tasks; PMX
  crossover of two permutations of the tasks returns (the search loop terminates, no
  error is raised) two offspring that are permutations of the tasks; mutation (swap or
  inversion, or none) of a permutation of the tasks is a permutation of the tasks.
  The values returned by \<open>Math.random()\<close> lie in the interval from 0 (included) to 1
  (excluded).
\<close>

theorem chromosome_permutation_invariant:
  assumes "distinct (map task_id tasks)" and "tasks \<noteq> []"
  shows "(mset shuffledTasks = mset tasks
            \<longrightarrow> isPermutationOf tasks (createRandomChromosome shuffledTasks))
     \<and> (isPermutationOf tasks chromosome1 \<and> isPermutationOf tasks chromosome2
          \<and> 0 \<le> r1 \<and> r1 < 1 \<and> 0 \<le> r2 \<and> r2 < 1
            \<longrightarrow> (\<exists>offspring1 offspring2.
                  crossoverArrays r1 r2 chromosome1 chromosome2
                    = Some (Inr (offspring1, offspring2))
                  \<and> isPermutationOf tasks offspring1 \<and> isPermutationOf tasks offspring2))
     \<and> (isPermutationOf tasks chromosome \<and> 0 \<le> r3 \<and> r3 < 1 \<and> 0 \<le> r4 \<and> r4 < 1
            \<longrightarrow> isPermutationOf tasks (mutateArray mutationRate r5 r6 r3 r4 chromosome))"
proof (intro conjI impI)
  assume "mset shuffledTasks = mset tasks"
  then show "isPermutationOf tasks (createRandomChromosome shuffledTasks)"
    by (simp add: createRandomChromosome_eq isPermutationOf_def)
next
  assume a: "isPermutationOf tasks chromosome1 \<and> isPermutationOf tasks chromosome2
          \<and> 0 \<le> r1 \<and> r1 < 1 \<and> 0 \<le> r2 \<and> r2 < 1"
  then show "\<exists>offspring1 offspring2.
      crossoverArrays r1 r2 chromosome1 chromosome2 = Some (Inr (offspring1, offspring2))
      \<and> isPermutationOf tasks offspring1 \<and> isPermutationOf tasks offspring2"
    using crossoverArrays_permutation [OF assms, of chromosome1 chromosome2 r1 r2] by blast
next
  assume a: "isPermutationOf tasks chromosome \<and> 0 \<le> r3 \<and> r3 < 1 \<and> 0 \<le> r4 \<and> r4 < 1"
  then have "mset chromosome = mset (map Some tasks)" by (simp add: isPermutationOf_def)
  moreover from this have "chromosome \<noteq> []" using assms(2) by auto
  ultimately show "isPermutationOf tasks (mutateArray mutationRate r5 r6 r3 r4 chromosome)"
    using a mutateArray_mset [of chromosome r3 r4 mutationRate r5 r6]
    by (simp add: isPermutationOf_def)
qed

definition tk :: "int \<Rightarrow> Task" where
  "tk i = \<lparr>task_id = i, task_type = DELIVERY, position = \<lparr>x = 2, y = 2\<rparr>, processingTime = 3\<rparr>"

lemma crossover_demo:
  "crossoverArrays (1/2) (1/2) [Some (tk 1), Some (tk 2), Some (tk 3)]
      [Some (tk 3), Some (tk 1), Some (tk 2)]
   = Some (Inr ([Some (tk 3), Some (tk 1), Some (tk 2)], [Some (tk 1), Some (tk 2), Some (tk 3)]))"
  by (simp add: crossoverArrays_def randomInt_def Let_def copySegments_def upto.simps
      js_get_def js_set_def fillRemainingPositions_def segmentIds_def fillLoop.simps
      findUnused.simps tk_def)

theorem chromosome_permutation_invariant_witness:
  "distinct (map task_id [tk 1, tk 2, tk 3]) \<and> [tk 1, tk 2, tk 3] \<noteq> []
   \<and> mset [tk 2, tk 3, tk 1] = mset [tk 1, tk 2, tk 3]
   \<and> isPermutationOf [tk 1, tk 2, tk 3] (createRandomChromosome [tk 2, tk 3, tk 1])
   \<and> isPermutationOf [tk 1, tk 2, tk 3] [Some (tk 1), Some (tk 2), Some (tk 3)]
   \<and> isPermutationOf [tk 1, tk 2, tk 3] [Some (tk 3), Some (tk 1), Some (tk 2)]
   \<and> crossoverArrays (1/2) (1/2) [Some (tk 1), Some (tk 2), Some (tk 3)]
        [Some (tk 3), Some (tk 1), Some (tk 2)]
      = Some (Inr ([Some (tk 3), Some (tk 1), Some (tk 2)],
                   [Some (tk 1), Some (tk 2), Some (tk 3)]))
   \<and> isPermutationOf [tk 1, tk 2, tk 3]
        (mutateArray (1/10) 0 (1/4) (1/2) (3/4) [Some (tk 1), Some (tk 2), Some (tk 3)])"
proof -
  have d: "distinct (map task_id [tk 1, tk 2, tk 3])" and n: "[tk 1, tk 2, tk 3] \<noteq> []"
    by (simp_all add: tk_def)
  have m: "mset [tk 2, tk 3, tk 1] = mset [tk 1, tk 2, tk 3]" by simp
  have p1: "isPermutationOf [tk 1, tk 2, tk 3] [Some (tk 1), Some (tk 2), Some (tk 3)]"
    and p2: "isPermutationOf [tk 1, tk 2, tk 3] [Some (tk 3), Some (tk 1), Some (tk 2)]"
    by (simp_all add: isPermutationOf_def)
  note T = chromosome_permutation_invariant [OF d n]
  have a: "isPermutationOf [tk 1, tk 2, tk 3] (createRandomChromosome [tk 2, tk 3, tk 1])"
    using T [of "[tk 2, tk 3, tk 1]"] m by blast
  have b: "isPermutationOf [tk 1, tk 2, tk 3] [Some (tk 3), Some (tk 1), Some (tk 2)]
      \<and> isPermutationOf [tk 1, tk 2, tk 3] [Some (tk 1), Some (tk 2), Some (tk 3)]"
    using T [of _ "[Some (tk 1), Some (tk 2), Some (tk 3)]"
        "[Some (tk 3), Some (tk 1), Some (tk 2)]" "1/2" "1/2"] p1 p2 crossover_demo
    by simp
  have c: "isPermutationOf [tk 1, tk 2, tk 3]
        (mutateArray (1/10) 0 (1/4) (1/2) (3/4) [Some (tk 1), Some (tk 2), Some (tk 3)])"
    using T [of _ _ _ _ _ "[Some (tk 1), Some (tk 2), Some (tk 3)]" "1/2" "3/4"] p1 by simp
  show ?thesis using d n m a p1 p2 crossover_demo b c by simp
qed

theorem chromosome_permutation_empty_counterexample:
  "distinct (map task_id []) \<and> isPermutationOf [] []
   \<and> mutateArray 1 (1/2) (1/4) (1/2) (1/2) [] = [None]
   \<and> \<not> isPermutationOf [] (mutateArray 1 (1/2) (1/4) (1/2) (1/2) [])"
  by (simp add: isPermutationOf_def mutateArray_def swapMutation_def randomInt_def
      js_get_def js_set_def)

section \<open>Genetic scheduler: populations and the run (GeneticAlgorithm.run)\<close>

text \<open>
  \<open>calculateFitness\<close> is the evaluator once more, now over an array that may hold
  \<open>undefined\<close>: reading \<open>task.position\<close> of such an element raises a \<open>TypeError\<close>.
\<close>

fun fitnessLoop :: "EvalState \<Rightarrow> TaskArray \<Rightarrow> error + EvalState" where
  "fitnessLoop st [] = Inr st"
| "fitnessLoop st (None # rest) = Inl TypeError"
| "fitnessLoop st (Some task # rest) = fitnessLoop (evalStep st task) rest"

definition calculateFitness :: "TaskArray \<Rightarrow> error + Metrics" where
  "calculateFitness chromosome =
     (case fitnessLoop evalStart chromosome of
        Inl e \<Rightarrow> Inl e
      | Inr st \<Rightarrow> Inr \<lparr>makespan = currentTime st, idleDistance = totalIdleDistance st\<rparr>)"

text \<open>
  An individual is an object with four fields; the field \<open>chromosome\<close> refers to an
  array.  Object spread (\<open>{ ...individual }\<close>) copies the fields, so the copy refers to
  the same array, and \<open>mutate\<close> changes that array in place.  The arrays therefore
  live in a store, a list of arrays, and \<open>chromosome\<close> is an index into it; the
  individuals themselves are never shared and are values.
\<close>

record Individual = Metrics +
  chromosome :: nat
  fitness :: real

record GeneticAlgorithmParams =
  tasks :: "Task list"
  populationSize :: int
  maxGenerations :: int
  crossoverRate :: real
  mutationRate :: real
  makeSpanWeight :: real
  idleDistanceWeight :: real

text \<open>
  What the run draws from its environment: \<open>random n\<close> is the value of the \<open>n\<close>-th
  call of \<open>Math.random()\<close> outside the sort comparator of the shuffle, and
  \<open>shuffle k\<close> is the shuffled copy of the tasks made for the \<open>k\<close>-th chromosome.
\<close>

record Randomness =
  random :: "nat \<Rightarrow> real"
  shuffle :: "nat \<Rightarrow> Task list"

record Stats =
  averageFitness :: real
  worstFitness :: real
  standardDeviation :: real

text \<open>
  The calls of the two callbacks, in order.  The model takes both callbacks as given
  and as observers only; what they are passed is recorded, the chromosome as the
  contents of the array at the time of the call.
\<close>

datatype event =
  OnGenerationComplete int TaskArray real real real Stats
| OnComplete

definition processingChunkSize :: "GeneticAlgorithmParams \<Rightarrow> int" where
  "processingChunkSize ga =
     (if length (tasks ga) > 20 then 3 else if length (tasks ga) > 15 then 4 else 5)"

definition earlyStopGenerations :: "GeneticAlgorithmParams \<Rightarrow> int" where
  "earlyStopGenerations ga =
     (if length (tasks ga) > 20 then 5 else if length (tasks ga) > 15 then 8 else 10)"

definition earlyStopThreshold :: real where
  "earlyStopThreshold = 0.001"

definition newIndividual :: "nat \<Rightarrow> Individual" where
  "newIndividual ref = \<lparr>makespan = 0, idleDistance = 0, chromosome = ref, fitness = 0\<rparr>"

function initializeLoop ::
  "Randomness \<Rightarrow> int \<Rightarrow> int \<Rightarrow> TaskArray list \<times> Individual list
   \<Rightarrow> TaskArray list \<times> Individual list" where
  "initializeLoop rnd popSize i (heap, population) =
     (if i < popSize then
        initializeLoop rnd popSize (i + 1)
          (heap @ [createRandomChromosome (shuffle rnd (nat i))],
           population @ [newIndividual (length heap)])
      else (heap, population))"
  by pat_completeness auto
termination
  by (relation "measure (\<lambda>(rnd, popSize, i, st). nat (popSize - i))") auto

declare initializeLoop.simps [simp del]

definition initializePopulation ::
  "GeneticAlgorithmParams \<Rightarrow> Randomness \<Rightarrow> TaskArray list \<times> Individual list" where
  "initializePopulation ga rnd = initializeLoop rnd (populationSize ga) 0 ([], [])"

fun evaluatePopulation ::
  "GeneticAlgorithmParams \<Rightarrow> TaskArray list \<Rightarrow> Individual option list \<Rightarrow> error + Individual list" where
  "evaluatePopulation ga heap [] = Inr []"
| "evaluatePopulation ga heap (None # rest) = Inl TypeError"
| "evaluatePopulation ga heap (Some individual # rest) =
     (case calculateFitness (heap ! chromosome individual) of
        Inl e \<Rightarrow> Inl e
      | Inr m \<Rightarrow>
          (case evaluatePopulation ga heap rest of
             Inl e \<Rightarrow> Inl e
           | Inr evaluated \<Rightarrow>
               Inr (individual\<lparr>makespan := makespan m, idleDistance := idleDistance m,
                      fitness := makeSpanWeight ga * makespan m
                                 + idleDistanceWeight ga * idleDistance m\<rparr> # evaluated)))"

definition findBestIndividual :: "Individual list \<Rightarrow> Individual option" where
  "findBestIndividual population =
     foldl (\<lambda>best current.
              case best of
                None \<Rightarrow> Some current
              | Some b \<Rightarrow> if fitness current < fitness b then Some current else Some b)
       None population"

definition calculatePopulationStatistics :: "Individual list \<Rightarrow> Stats" where
  "calculatePopulationStatistics population =
     (let totalFitness = foldl (\<lambda>sum individual. sum + fitness individual) 0 population;
          average = totalFitness / real (length population);
          worst = foldl (\<lambda>worst current. if fitness current > worst then fitness current else worst)
                    (case population of [] \<Rightarrow> 0 | first # _ \<Rightarrow> fitness first) population;
          sumSquaredDifferences =
            foldl (\<lambda>sum individual. sum + (fitness individual - average)\<^sup>2) 0 population
      in \<lparr>averageFitness = average, worstFitness = worst,
          standardDeviation = sqrt (sumSquaredDifferences / real (length population))\<rparr>)"

text \<open>
  \<open>tournamentSelection\<close> returns \<open>{ ...best }\<close>; for an empty population \<open>best\<close> is
  \<open>undefined\<close> and the result is an object without fields, which is \<open>None\<close> here.
\<close>

definition tournamentRound ::
  "Individual list \<Rightarrow> error + Individual option \<Rightarrow> real \<Rightarrow> error + Individual option" where
  "tournamentRound population acc r =
     (case acc of
        Inl e \<Rightarrow> Inl e
      | Inr best \<Rightarrow>
          (let randomIndex = randomInt r (int (length population));
               individual = js_get (map Some population) randomIndex
           in case best of
                None \<Rightarrow> Inr individual
              | Some b \<Rightarrow>
                  (case individual of
                     None \<Rightarrow> Inl TypeError
                   | Some current \<Rightarrow>
                       if fitness current < fitness b then Inr (Some current) else Inr (Some b))))"

definition tournamentSelection ::
  "(nat \<Rightarrow> real) \<Rightarrow> nat \<Rightarrow> Individual list \<Rightarrow> error + Individual option" where
  "tournamentSelection rand cursor population =
     foldl (tournamentRound population) (Inr None)
       [rand cursor, rand (cursor + 1), rand (cursor + 2)]"

definition crossover ::
  "real \<Rightarrow> real \<Rightarrow> TaskArray list \<Rightarrow> Individual option \<Rightarrow> Individual option
   \<Rightarrow> (error + (Individual \<times> Individual) \<times> TaskArray list) option" where
  "crossover r1 r2 heap parent1 parent2 =
     (case parent1 of
        None \<Rightarrow> Some (Inl TypeError)
      | Some p1 \<Rightarrow>
          (case parent2 of
             None \<Rightarrow> Some (Inl TypeError)
           | Some p2 \<Rightarrow>
               (case crossoverArrays r1 r2 (heap ! chromosome p1) (heap ! chromosome p2) of
                  None \<Rightarrow> None
                | Some (Inl e) \<Rightarrow> Some (Inl e)
                | Some (Inr (offspring1, offspring2)) \<Rightarrow>
                    Some (Inr ((newIndividual (length heap), newIndividual (length heap + 1)),
                               heap @ [offspring1, offspring2])))))"

definition mutate ::
  "real \<Rightarrow> (nat \<Rightarrow> real) \<Rightarrow> nat \<Rightarrow> TaskArray list \<Rightarrow> Individual option
   \<Rightarrow> error + TaskArray list \<times> nat" where
  "mutate rate rand cursor heap individual =
     (if rand cursor > rate then Inr (heap, cursor + 1)
      else case individual of
             None \<Rightarrow> Inl TypeError
           | Some ind \<Rightarrow>
               Inr (heap[chromosome ind :=
                      mutateArray rate (rand cursor) (rand (cursor + 1)) (rand (cursor + 2))
                        (rand (cursor + 3)) (heap ! chromosome ind)],
                    cursor + 4))"

text \<open>
  \<open>createNewGeneration\<close>.  \<open>sort\<close> with the comparator \<open>a.fitness - b.fitness\<close> is a
  stable ascending sort.  \<open>reproduce\<close> is one pass of the body of the \<open>while\<close> loop up
  to the two \<open>push\<close> calls; \<open>cursor\<close> counts the calls of \<open>Math.random()\<close>.
\<close>

definition eliteCount :: "int \<Rightarrow> int" where
  "eliteCount popSize = max 1 \<lfloor>real_of_int popSize * 0.1\<rfloor>"

definition elites :: "int \<Rightarrow> Individual list \<Rightarrow> Individual option list" where
  "elites popSize population =
     (let sortedPopulation = sort_key fitness population
      in map (\<lambda>i. js_get (map Some sortedPopulation) (int i)) [0..<nat (eliteCount popSize)])"

definition reproduce ::
  "GeneticAlgorithmParams \<Rightarrow> (nat \<Rightarrow> real) \<Rightarrow> Individual list \<Rightarrow> TaskArray list \<Rightarrow> nat
   \<Rightarrow> (error + (Individual option \<times> Individual option) \<times> TaskArray list \<times> nat) option" where
  "reproduce ga rand population heap cursor =
     (case tournamentSelection rand cursor population of
        Inl e \<Rightarrow> Some (Inl e)
      | Inr parent1 \<Rightarrow>
          (case tournamentSelection rand (cursor + 3) population of
             Inl e \<Rightarrow> Some (Inl e)
           | Inr parent2 \<Rightarrow>
               (case (if rand (cursor + 6) < crossoverRate ga
                      then (case crossover (rand (cursor + 7)) (rand (cursor + 8)) heap
                                   parent1 parent2 of
                              None \<Rightarrow> None
                            | Some (Inl e) \<Rightarrow> Some (Inl e)
                            | Some (Inr ((child1, child2), heap1)) \<Rightarrow>
                                Some (Inr ((Some child1, Some child2), heap1, cursor + 9)))
                      else Some (Inr ((parent1, parent2), heap, cursor + 7))) of
                  None \<Rightarrow> None
                | Some (Inl e) \<Rightarrow> Some (Inl e)
                | Some (Inr ((offspring1, offspring2), heap1, cursor1)) \<Rightarrow>
                    (case mutate (mutationRate ga) rand cursor1 heap1 offspring1 of
                       Inl e \<Rightarrow> Some (Inl e)
                     | Inr (heap2, cursor2) \<Rightarrow>
                         (case mutate (mutationRate ga) rand cursor2 heap2 offspring2 of
                            Inl e \<Rightarrow> Some (Inl e)
                          | Inr (heap3, cursor3) \<Rightarrow>
                              Some (Inr ((offspring1, offspring2), heap3, cursor3)))))))"

function fillPopulation ::
  "GeneticAlgorithmParams \<Rightarrow> (nat \<Rightarrow> real) \<Rightarrow> Individual list
   \<Rightarrow> TaskArray list \<Rightarrow> nat \<Rightarrow> Individual option list
   \<Rightarrow> (error + TaskArray list \<times> nat \<times> Individual option list) option" where
  "fillPopulation ga rand population heap cursor newPopulation =
     (if int (length newPopulation) < populationSize ga then
        (case reproduce ga rand population heap cursor of
           None \<Rightarrow> None
         | Some (Inl e) \<Rightarrow> Some (Inl e)
         | Some (Inr ((offspring1, offspring2), heap1, cursor1)) \<Rightarrow>
             fillPopulation ga rand population heap1 cursor1
               (if int (length (newPopulation @ [offspring1])) < populationSize ga
                then newPopulation @ [offspring1] @ [offspring2]
                else newPopulation @ [offspring1]))
      else Some (Inr (heap, cursor, newPopulation)))"
  by pat_completeness auto
termination
  by (relation "measure (\<lambda>(ga, rand, population, heap, cursor, newPopulation).
        nat (populationSize ga - int (length newPopulation)))") auto

declare fillPopulation.simps [simp del]

definition createNewGeneration ::
  "GeneticAlgorithmParams \<Rightarrow> (nat \<Rightarrow> real) \<Rightarrow> Individual list \<Rightarrow> TaskArray list \<Rightarrow> nat
   \<Rightarrow> (error + TaskArray list \<times> nat \<times> Individual option list) option" where
  "createNewGeneration ga rand population heap cursor =
     fillPopulation ga rand population heap cursor (elites (populationSize ga) population)"

text \<open>
  \<open>run\<close>.  The state of the loops is the store, the fields of the object and the
  callbacks made so far.  A step returns the state and the error raised, if any;
  \<open>None\<close> is a step that does not return.  When the early-stopping test succeeds the
  source sets \<open>generation\<close> to \<open>maxGenerations\<close> and leaves the \<open>for\<close> loop, and the
  statement after the loop sets \<open>generation\<close> to \<open>endChunk\<close>.
\<close>

record RunState =
  heap :: "TaskArray list"
  cursor :: nat
  population :: "Individual list"
  bestSolution :: Individual
  lastBestFitness :: real
  generationsWithoutImprovement :: int
  trace :: "event list"

definition report :: "int \<Rightarrow> TaskArray list \<Rightarrow> Individual \<Rightarrow> Stats \<Rightarrow> event" where
  "report generation hp best stats =
     OnGenerationComplete generation (hp ! chromosome best) (fitness best) (makespan best)
       (idleDistance best) stats"

definition generationStep ::
  "GeneticAlgorithmParams \<Rightarrow> (nat \<Rightarrow> real) \<Rightarrow> int \<Rightarrow> RunState
   \<Rightarrow> (RunState \<times> error option) option" where
  "generationStep ga rand g st =
     (case createNewGeneration ga rand (population st) (heap st) (cursor st) of
        None \<Rightarrow> None
      | Some (Inl e) \<Rightarrow> Some (st, Some e)
      | Some (Inr (heap1, cursor1, newPopulation)) \<Rightarrow>
          (case evaluatePopulation ga heap1 newPopulation of
             Inl e \<Rightarrow> Some (st\<lparr>heap := heap1, cursor := cursor1\<rparr>, Some e)
           | Inr population1 \<Rightarrow>
               (case findBestIndividual population1 of
                  None \<Rightarrow>
                    Some (st\<lparr>heap := heap1, cursor := cursor1, population := population1\<rparr>,
                          Some TypeError)
                | Some bestInGeneration \<Rightarrow>
                    (let stats = calculatePopulationStatistics population1;
                         improvement = lastBestFitness st - fitness bestInGeneration;
                         improved = improvement > earlyStopThreshold;
                         best1 = (if fitness bestInGeneration < fitness (bestSolution st)
                                  then bestInGeneration else bestSolution st)
                     in Some (st\<lparr>heap := heap1, cursor := cursor1, population := population1,
                                 bestSolution := best1,
                                 lastBestFitness :=
                                   (if improved then fitness bestInGeneration
                                    else lastBestFitness st),
                                 generationsWithoutImprovement :=
                                   (if improved then 0
                                    else generationsWithoutImprovement st + 1),
                                 trace := trace st @ [report (g + 1) heap1 best1 stats]\<rparr>,
                              None)))))"

function chunkLoop ::
  "GeneticAlgorithmParams \<Rightarrow> (nat \<Rightarrow> real) \<Rightarrow> int \<Rightarrow> int \<Rightarrow> RunState
   \<Rightarrow> (RunState \<times> error option) option" where
  "chunkLoop ga rand endChunk g st =
     (if g < endChunk then
        (case generationStep ga rand g st of
           None \<Rightarrow> None
         | Some (st1, Some e) \<Rightarrow> Some (st1, Some e)
         | Some (st1, None) \<Rightarrow>
             if generationsWithoutImprovement st1 \<ge> earlyStopGenerations ga
             then Some (st1, None)
             else chunkLoop ga rand endChunk (g + 1) st1)
      else Some (st, None))"
  by pat_completeness auto
termination
  by (relation "measure (\<lambda>(ga, rand, endChunk, g, st). nat (endChunk - g))") auto

declare chunkLoop.simps [simp del]

function mainLoop ::
  "GeneticAlgorithmParams \<Rightarrow> (nat \<Rightarrow> real) \<Rightarrow> int \<Rightarrow> RunState
   \<Rightarrow> (RunState \<times> error option) option" where
  "mainLoop ga rand generation st =
     (if generation < maxGenerations ga then
        (let endChunk = min (generation + processingChunkSize ga) (maxGenerations ga)
         in case chunkLoop ga rand endChunk generation st of
              None \<Rightarrow> None
            | Some (st1, Some e) \<Rightarrow> Some (st1, Some e)
            | Some (st1, None) \<Rightarrow> mainLoop ga rand endChunk st1)
      else Some (st, None))"
  by pat_completeness auto
termination
  by (relation "measure (\<lambda>(ga, rand, generation, st). nat (maxGenerations ga - generation))")
    (auto simp: processingChunkSize_def)

declare mainLoop.simps [simp del]

definition run ::
  "GeneticAlgorithmParams \<Rightarrow> Randomness \<Rightarrow> (event list \<times> error option) option" where
  "run ga rnd =
     (case initializePopulation ga rnd of
        (heap0, population0) \<Rightarrow>
          (case evaluatePopulation ga heap0 (map Some population0) of
             Inl e \<Rightarrow> Some ([], Some e)
           | Inr population1 \<Rightarrow>
               (case findBestIndividual population1 of
                  None \<Rightarrow> Some ([], Some TypeError)
                | Some initialBest \<Rightarrow>
                    (let initialStats = calculatePopulationStatistics population1;
                         st = \<lparr>heap = heap0, cursor = 0, population = population1,
                               bestSolution = initialBest,
                               lastBestFitness = fitness initialBest,
                               generationsWithoutImprovement = 0,
                               trace = [report 0 heap0 initialBest initialStats]\<rparr>
                     in case mainLoop ga (random rnd) 0 st of
                          None \<Rightarrow> None
                        | Some (st1, Some e) \<Rightarrow> Some (trace st1, Some e)
                        | Some (st1, None) \<Rightarrow> Some (trace st1 @ [OnComplete], None)))))"

fun reports :: "event list \<Rightarrow> (int \<times> real) list" where
  "reports [] = []"
| "reports (OnGenerationComplete g c f m i s # es) = (g, f) # reports es"
| "reports (OnComplete # es) = reports es"

definition neverRegresses :: "(int \<times> real) list \<Rightarrow> bool" where
  "neverRegresses rs = sorted_wrt (\<lambda>a b. fst a < fst b \<and> snd b \<le> snd a) rs"

definition tracked :: "int \<Rightarrow> RunState \<Rightarrow> bool" where
  "tracked g st \<longleftrightarrow>
     0 \<le> g
     \<and> neverRegresses (reports (trace st))
     \<and> OnComplete \<notin> set (trace st)
     \<and> reports (trace st) \<noteq> []
     \<and> fst (hd (reports (trace st))) = 0
     \<and> (\<forall>r \<in> set (reports (trace st)).
           0 \<le> fst r \<and> fst r \<le> g \<and> fitness (bestSolution st) \<le> snd r)"

lemma reports_append: "reports (es @ fs) = reports es @ reports fs"
  by (induction es rule: reports.induct) simp_all

lemma tracked_mono: "tracked g st \<Longrightarrow> g \<le> g' \<Longrightarrow> tracked g' st"
  unfolding tracked_def by force

lemma generationStep_cases:
  "generationStep ga rand g st = Some (st1, res) \<Longrightarrow>
   (res \<noteq> None \<and> trace st1 = trace st \<and> bestSolution st1 = bestSolution st)
   \<or> (res = None
      \<and> (\<exists>h stats. trace st1 = trace st @ [report (g + 1) h (bestSolution st1) stats])
      \<and> fitness (bestSolution st1) \<le> fitness (bestSolution st))"
  unfolding generationStep_def
  by (auto simp: Let_def split: option.splits sum.splits prod.splits if_splits) blast+

lemma generationStep_tracked:
  assumes "generationStep ga rand g st = Some (st1, res)" and "tracked g st"
  shows "(res = None \<longrightarrow> tracked (g + 1) st1) \<and> (res \<noteq> None \<longrightarrow> tracked g st1)"
proof -
  from generationStep_cases [OF assms(1)]
  consider (err) "res \<noteq> None" "trace st1 = trace st" "bestSolution st1 = bestSolution st"
    | (ok) h stats where "res = None"
        "trace st1 = trace st @ [report (g + 1) h (bestSolution st1) stats]"
        "fitness (bestSolution st1) \<le> fitness (bestSolution st)"
    by blast
  then show ?thesis
  proof cases
    case err
    with assms(2) show ?thesis by (auto simp: tracked_def)
  next
    case ok
    have "tracked (g + 1) st1"
      using assms(2) ok(2,3) unfolding tracked_def neverRegresses_def
      by (auto simp: reports_append report_def sorted_wrt_append)
    with ok(1) show ?thesis by simp
  qed
qed

lemma chunkLoop_tracked:
  "chunkLoop ga rand endChunk g st = Some (st1, res) \<Longrightarrow> tracked g st \<Longrightarrow> g \<le> endChunk
   \<Longrightarrow> tracked endChunk st1"
proof (induction ga rand endChunk g st rule: chunkLoop.induct)
  case (1 ga rand endChunk g st)
  note unf = "1.prems"(1) [unfolded chunkLoop.simps [of ga rand endChunk g st]]
  show ?case
  proof (cases "g < endChunk")
    case False
    with unf "1.prems" show ?thesis by simp
  next
    case True
    then obtain st2 res2 where gs: "generationStep ga rand g st = Some (st2, res2)"
      using unf by (auto split: option.splits)
    note T = generationStep_tracked [OF gs "1.prems"(2)]
    show ?thesis
    proof (cases res2)
      case (Some e)
      then have "st1 = st2" using unf True gs by simp
      with T Some True show ?thesis using tracked_mono [of g st2 endChunk] by simp
    next
      case None
      note noerr = this
      with T have t2: "tracked (g + 1) st2" by simp
      show ?thesis
      proof (cases "generationsWithoutImprovement st2 \<ge> earlyStopGenerations ga")
        case True
        then have "st1 = st2" using unf \<open>g < endChunk\<close> gs noerr by simp
        with t2 \<open>g < endChunk\<close> show ?thesis using tracked_mono [of "g + 1" st2 endChunk] by simp
      next
        case False
        then have "chunkLoop ga rand endChunk (g + 1) st2 = Some (st1, res)"
          using unf \<open>g < endChunk\<close> gs noerr by simp
        from "1.IH" [OF \<open>g < endChunk\<close> gs refl noerr False this t2] \<open>g < endChunk\<close>
        show ?thesis by simp
      qed
    qed
  qed
qed

lemma mainLoop_tracked:
  "mainLoop ga rand generation st = Some (st1, res) \<Longrightarrow> tracked generation st
   \<Longrightarrow> tracked (max generation (maxGenerations ga)) st1"
proof (induction ga rand generation st rule: mainLoop.induct)
  case (1 ga rand generation st)
  note unf = "1.prems"(1) [unfolded mainLoop.simps [of ga rand generation st]]
  show ?case
  proof (cases "generation < maxGenerations ga")
    case False
    with unf "1.prems" show ?thesis by (simp add: max_def)
  next
    case True
    define endChunk where "endChunk = min (generation + processingChunkSize ga) (maxGenerations ga)"
    have ge: "generation \<le> endChunk" "endChunk \<le> maxGenerations ga"
      using True by (simp_all add: endChunk_def processingChunkSize_def)
    obtain st2 res2 where cl: "chunkLoop ga rand endChunk generation st = Some (st2, res2)"
      using unf True by (auto simp: Let_def endChunk_def split: option.splits)
    note t2 = chunkLoop_tracked [OF cl "1.prems"(2) ge(1)]
    show ?thesis
    proof (cases res2)
      case (Some e)
      then have "st1 = st2" using unf True cl by (simp add: Let_def endChunk_def)
      with t2 ge True show ?thesis
        using tracked_mono [of endChunk st2 "maxGenerations ga"] by (simp add: max_def)
    next
      case None
      then have "mainLoop ga rand endChunk st2 = Some (st1, res)"
        using unf True cl by (simp add: Let_def endChunk_def)
      from "1.IH" [OF True endChunk_def cl refl None this t2]
      show ?thesis using ge True by (simp add: max_def)
    qed
  qed
qed

lemma run_tracked:
  assumes "run ga rnd = Some (tr, res)"
  shows "(tr = [] \<and> res \<noteq> None)
     \<or> (\<exists>st. tracked (max 0 (maxGenerations ga)) st
           \<and> (res = None \<longrightarrow> tr = trace st @ [OnComplete]) \<and> (res \<noteq> None \<longrightarrow> tr = trace st))"
proof -
  obtain heap0 population0 where ip: "initializePopulation ga rnd = (heap0, population0)"
    by (cases "initializePopulation ga rnd")
  show ?thesis
  proof (cases "evaluatePopulation ga heap0 (map Some population0)")
    case (Inl e)
    with assms ip show ?thesis by (auto simp: run_def)
  next
    case (Inr population1)
    note ev = this
    show ?thesis
    proof (cases "findBestIndividual population1")
      case None
      with assms ip ev show ?thesis by (auto simp: run_def)
    next
      case (Some initialBest)
      define st where "st = \<lparr>heap = heap0, cursor = 0, population = population1,
          bestSolution = initialBest, lastBestFitness = fitness initialBest,
          generationsWithoutImprovement = 0,
          trace = [report 0 heap0 initialBest (calculatePopulationStatistics population1)]\<rparr>"
      have t0: "tracked 0 st"
        by (simp add: tracked_def st_def report_def neverRegresses_def)
      from assms ip ev Some obtain st1 res1 where
        ml: "mainLoop ga (random rnd) 0 st = Some (st1, res1)"
        and out: "(tr, res) = (case res1 of Some e \<Rightarrow> (trace st1, Some e)
                                | None \<Rightarrow> (trace st1 @ [OnComplete], None))"
        by (auto simp: run_def Let_def st_def split: option.splits)
      from mainLoop_tracked [OF ml t0] out show ?thesis
        by (cases res1) auto
    qed
  qed
qed

lemma neverRegresses_length:
  assumes "neverRegresses rs" and "\<forall>r \<in> set rs. 0 \<le> fst r \<and> fst r \<le> m" and m: "0 \<le> m"
  shows "int (length rs) \<le> m + 1"
proof -
  have "sorted_wrt (<) (map fst rs)"
    using assms(1) unfolding neverRegresses_def sorted_wrt_map
    by (rule sorted_wrt_mono_rel [rotated]) simp
  then have "distinct (map fst rs)"
    by (simp add: sorted_wrt_iff_nth_less distinct_conv_nth) (metis less_irrefl linorder_neqE_nat)
  then have "card (set (map fst rs)) = length (map fst rs)" by (rule distinct_card)
  then have "length rs = card (set (map fst rs))" by simp
  also have "\<dots> \<le> card {0..m}" using assms(2) by (intro card_mono) auto
  also have "\<dots> = nat (m + 1)" by simp
  finally show ?thesis using m by simp
qed

section \<open>The run completes on well-formed input\<close>

text \<open>
  Well-formed input of the run: \<open>Math.random()\<close> returns values from 0 (included) to 1
  (excluded), every shuffle is a permutation of the tasks.  Well-formed state: every
  array of the store is a permutation of the tasks, every individual refers into the
  store.
\<close>

definition validRandom :: "(nat \<Rightarrow> real) \<Rightarrow> bool" where
  "validRandom rand \<longleftrightarrow> (\<forall>n. 0 \<le> rand n \<and> rand n < 1)"

definition validShuffle :: "Task list \<Rightarrow> (nat \<Rightarrow> Task list) \<Rightarrow> bool" where
  "validShuffle ts sh \<longleftrightarrow> (\<forall>k. mset (sh k) = mset ts)"

definition validHeap :: "Task list \<Rightarrow> TaskArray list \<Rightarrow> bool" where
  "validHeap ts hp \<longleftrightarrow> (\<forall>a \<in> set hp. isPermutationOf ts a)"

definition validRefs :: "TaskArray list \<Rightarrow> Individual list \<Rightarrow> bool" where
  "validRefs hp pop \<longleftrightarrow> (\<forall>ind \<in> set pop. chromosome ind < length hp)"

lemma validRefs_grow: "validRefs hp pop \<Longrightarrow> length hp \<le> length hp' \<Longrightarrow> validRefs hp' pop"
  unfolding validRefs_def by force

lemma initializeLoop_valid:
  "initializeLoop rnd n i (hp, pop) = (hp', pop') \<Longrightarrow> validShuffle ts (shuffle rnd) \<Longrightarrow>
   validHeap ts hp \<Longrightarrow> validRefs hp pop \<Longrightarrow>
   validHeap ts hp' \<and> validRefs hp' pop' \<and> length pop' = length pop + nat (n - i)"
proof (induction rnd n i "(hp, pop)" arbitrary: hp pop rule: initializeLoop.induct)
  case (1 rnd n i hp pop)
  note unf = "1.prems"(1) [unfolded initializeLoop.simps [of rnd n i hp pop]]
  show ?case
  proof (cases "i < n")
    case False
    with unf "1.prems" show ?thesis by simp
  next
    case True
    let ?hp = "hp @ [createRandomChromosome (shuffle rnd (nat i))]"
    let ?pop = "pop @ [newIndividual (length hp)]"
    have run: "initializeLoop rnd n (i + 1) (?hp, ?pop) = (hp', pop')" using unf True by simp
    have h: "validHeap ts ?hp"
      using "1.prems"(2,3)
      by (auto simp: validHeap_def validShuffle_def createRandomChromosome_eq isPermutationOf_def)
    have r: "validRefs ?hp ?pop"
      using "1.prems"(4) by (auto simp: validRefs_def newIndividual_def)
    from "1.hyps" [OF True run "1.prems"(2) h r] True show ?thesis by (simp add: nat_diff_distrib)
  qed
qed

lemma fitnessLoop_total: "fitnessLoop st (map Some p) = Inr (foldl evalStep st p)"
  by (induction p arbitrary: st) simp_all

lemma calculateFitness_total: "calculateFitness (map Some p) = Inr (calculateMetrics p)"
  by (simp add: calculateFitness_def calculateMetrics_def fitnessLoop_total Let_def)

lemma calculateFitness_valid:
  assumes "isPermutationOf ts a"
  shows "\<exists>m. calculateFitness a = Inr m"
  using isPermutationOf_map [OF assms] calculateFitness_total by auto

lemma evaluatePopulation_valid:
  "validHeap ts hp \<Longrightarrow> validRefs hp pop \<Longrightarrow>
   \<exists>pop'. evaluatePopulation ga hp (map Some pop) = Inr pop'
      \<and> map chromosome pop' = map chromosome pop"
proof (induction pop)
  case Nil
  then show ?case by simp
next
  case (Cons ind pop)
  then have "isPermutationOf ts (hp ! chromosome ind)"
    by (simp add: validHeap_def validRefs_def)
  from calculateFitness_valid [OF this] obtain m where
    m: "calculateFitness (hp ! chromosome ind) = Inr m" by blast
  from Cons have "validRefs hp pop" by (simp add: validRefs_def)
  from Cons.IH [OF Cons.prems(1) this] obtain pop' where
    "evaluatePopulation ga hp (map Some pop) = Inr pop'" "map chromosome pop' = map chromosome pop"
    by blast
  with m show ?case by simp
qed

lemma validRefs_chromosomes:
  "map chromosome pop' = map chromosome pop \<Longrightarrow> validRefs hp pop \<Longrightarrow> validRefs hp pop'"
  unfolding validRefs_def by (metis (no_types, lifting) image_iff list.set_map)

lemma findBest_fold:
  "\<exists>b. foldl (\<lambda>best current.
              case best of
                None \<Rightarrow> Some current
              | Some b \<Rightarrow> if fitness current < fitness b then Some current else Some b)
       (Some b0) pop = Some b \<and> b \<in> insert b0 (set pop) \<and> fitness b \<le> fitness b0"
proof (induction pop arbitrary: b0)
  case Nil
  show ?case by simp
next
  case (Cons a pop)
  show ?case
  proof (cases "fitness a < fitness b0")
    case True
    with Cons.IH [of a] show ?thesis by auto
  next
    case False
    with Cons.IH [of b0] show ?thesis by auto
  qed
qed

lemma findBestIndividual_nonempty:
  assumes "pop \<noteq> []"
  shows "\<exists>b. findBestIndividual pop = Some b \<and> b \<in> set pop"
proof -
  obtain a rest where p: "pop = a # rest" using assms by (cases pop) auto
  from findBest_fold [of a rest] show ?thesis
    unfolding findBestIndividual_def p by auto
qed

lemma findBestIndividual_empty: "findBestIndividual [] = None"
  by (simp add: findBestIndividual_def)

lemma tournamentRound_valid:
  assumes "pop \<noteq> []" "0 \<le> r" "r < 1" "best = None \<or> (\<exists>b \<in> set pop. best = Some b)"
  shows "\<exists>ind \<in> set pop. tournamentRound pop (Inr best) r = Inr (Some ind)"
proof -
  let ?i = "randomInt r (int (length pop))"
  have n: "0 < int (length pop)" using assms(1) by simp
  from randomInt_range [OF assms(2,3) n] have i: "0 \<le> ?i" "?i < int (length pop)" by simp_all
  then have g: "js_get (map Some pop) ?i = Some (pop ! nat ?i)" by (simp add: js_get_def)
  have mem: "pop ! nat ?i \<in> set pop" using i by simp
  show ?thesis
    using assms(4) g mem unfolding tournamentRound_def Let_def by auto
qed

lemma tournamentSelection_valid:
  assumes "pop \<noteq> []" "validRandom rand"
  shows "\<exists>ind \<in> set pop. tournamentSelection rand c pop = Inr (Some ind)"
proof -
  have r: "\<And>n. 0 \<le> rand n" "\<And>n. rand n < 1" using assms(2) by (simp_all add: validRandom_def)
  from tournamentRound_valid [OF assms(1) r(1) r(2), of None c] obtain i1 where
    1: "i1 \<in> set pop" "tournamentRound pop (Inr None) (rand c) = Inr (Some i1)" by auto
  from tournamentRound_valid [OF assms(1) r(1) r(2), of "Some i1" "c + 1"] 1(1) obtain i2 where
    2: "i2 \<in> set pop" "tournamentRound pop (Inr (Some i1)) (rand (c + 1)) = Inr (Some i2)" by auto
  from tournamentRound_valid [OF assms(1) r(1) r(2), of "Some i2" "c + 2"] 2(1) obtain i3 where
    3: "i3 \<in> set pop" "tournamentRound pop (Inr (Some i2)) (rand (c + 2)) = Inr (Some i3)" by auto
  show ?thesis using 1 2 3 by (auto simp: tournamentSelection_def)
qed

lemma crossover_valid:
  assumes dist: "distinct (map task_id ts)" and ne: "ts \<noteq> []"
    and hp: "validHeap ts hp"
    and refs: "chromosome p1 < length hp" "chromosome p2 < length hp"
    and r: "0 \<le> r1" "r1 < 1" "0 \<le> r2" "r2 < 1"
  shows "\<exists>c1 c2 hp'. crossover r1 r2 hp (Some p1) (Some p2) = Some (Inr ((c1, c2), hp'))
     \<and> validHeap ts hp' \<and> length hp \<le> length hp'
     \<and> chromosome c1 < length hp' \<and> chromosome c2 < length hp'"
proof -
  have "isPermutationOf ts (hp ! chromosome p1)" "isPermutationOf ts (hp ! chromosome p2)"
    using hp refs by (simp_all add: validHeap_def)
  from crossoverArrays_permutation [OF dist ne this r] obtain o1 o2 where
    o: "crossoverArrays r1 r2 (hp ! chromosome p1) (hp ! chromosome p2) = Some (Inr (o1, o2))"
      "isPermutationOf ts o1" "isPermutationOf ts o2" by blast
  have "validHeap ts (hp @ [o1, o2])" using hp o(2,3) by (simp add: validHeap_def)
  then show ?thesis using o(1) by (simp add: crossover_def newIndividual_def)
qed

lemma mutate_valid:
  assumes ne: "ts \<noteq> []" and hp: "validHeap ts hp" and ref: "chromosome ind < length hp"
    and r: "validRandom rand"
  shows "\<exists>hp' c'. mutate rate rand c hp (Some ind) = Inr (hp', c')
     \<and> validHeap ts hp' \<and> length hp' = length hp"
proof (cases "rand c > rate")
  case True
  then show ?thesis using hp by (simp add: mutate_def)
next
  case False
  let ?a = "hp ! chromosome ind"
  let ?m = "mutateArray rate (rand c) (rand (c + 1)) (rand (c + 2)) (rand (c + 3)) ?a"
  have pa: "isPermutationOf ts ?a" using hp ref by (simp add: validHeap_def)
  then have "?a \<noteq> []" using ne by (auto simp: isPermutationOf_def)
  then have "mset ?m = mset ?a"
    using r by (intro mutateArray_mset) (simp_all add: validRandom_def)
  then have "isPermutationOf ts ?m" using pa by (simp add: isPermutationOf_def)
  then have "validHeap ts (hp[chromosome ind := ?m])"
    using hp set_update_subset_insert [of hp "chromosome ind" ?m]
    by (auto simp: validHeap_def)
  then show ?thesis using False by (simp add: mutate_def)
qed

lemma reproduce_valid:
  assumes dist: "distinct (map task_id (tasks ga))" and ne: "tasks ga \<noteq> []"
    and hp: "validHeap (tasks ga) hp" and refs: "validRefs hp pop" and pne: "pop \<noteq> []"
    and r: "validRandom rand"
  shows "\<exists>o1 o2 hp' c'. reproduce ga rand pop hp c = Some (Inr ((Some o1, Some o2), hp', c'))
     \<and> validHeap (tasks ga) hp' \<and> length hp \<le> length hp'
     \<and> chromosome o1 < length hp' \<and> chromosome o2 < length hp'"
proof -
  from tournamentSelection_valid [OF pne r, of c] obtain p1 where
    p1: "p1 \<in> set pop" "tournamentSelection rand c pop = Inr (Some p1)" by blast
  from tournamentSelection_valid [OF pne r, of "c + 3"] obtain p2 where
    p2: "p2 \<in> set pop" "tournamentSelection rand (c + 3) pop = Inr (Some p2)" by blast
  have rp: "chromosome p1 < length hp" "chromosome p2 < length hp"
    using refs p1(1) p2(1) by (simp_all add: validRefs_def)
  have rr: "\<And>n. 0 \<le> rand n" "\<And>n. rand n < 1" using r by (simp_all add: validRandom_def)
  obtain o1 o2 hp1 c1 where
    x: "(if rand (c + 6) < crossoverRate ga
         then (case crossover (rand (c + 7)) (rand (c + 8)) hp (Some p1) (Some p2) of
                 None \<Rightarrow> None
               | Some (Inl e) \<Rightarrow> Some (Inl e)
               | Some (Inr ((child1, child2), heap1)) \<Rightarrow>
                   Some (Inr ((Some child1, Some child2), heap1, c + 9)))
         else Some (Inr ((Some p1, Some p2), hp, c + 7)))
        = Some (Inr ((Some o1, Some o2), hp1, c1))"
      and v1: "validHeap (tasks ga) hp1" "length hp \<le> length hp1"
        "chromosome o1 < length hp1" "chromosome o2 < length hp1"
  proof (cases "rand (c + 6) < crossoverRate ga")
    case True
    from crossover_valid [OF dist ne hp rp rr(1) rr(2) rr(1) rr(2), of "c + 7" "c + 8"]
    obtain k1 k2 hp' where
      "crossover (rand (c + 7)) (rand (c + 8)) hp (Some p1) (Some p2) = Some (Inr ((k1, k2), hp'))"
      "validHeap (tasks ga) hp'" "length hp \<le> length hp'"
      "chromosome k1 < length hp'" "chromosome k2 < length hp'" by blast
    with True that show ?thesis by simp
  next
    case False
    with that [of p1 p2 hp "c + 7"] hp rp show ?thesis by simp
  qed
  from mutate_valid [OF ne v1(1) v1(3) r, of "mutationRate ga" c1] obtain hp2 c2 where
    m1: "mutate (mutationRate ga) rand c1 hp1 (Some o1) = Inr (hp2, c2)"
      "validHeap (tasks ga) hp2" "length hp2 = length hp1" by blast
  from mutate_valid [OF ne m1(2) _ r, of o2 "mutationRate ga" c2] v1(4) m1(3) obtain hp3 c3 where
    m2: "mutate (mutationRate ga) rand c2 hp2 (Some o2) = Inr (hp3, c3)"
      "validHeap (tasks ga) hp3" "length hp3 = length hp2" by auto
  have "reproduce ga rand pop hp c = Some (Inr ((Some o1, Some o2), hp3, c3))"
    unfolding reproduce_def p1(2) p2(2) using x m1(1) m2(1) by simp
  then show ?thesis using m2 m1 v1 by auto
qed

definition validOffspring :: "TaskArray list \<Rightarrow> Individual option list \<Rightarrow> bool" where
  "validOffspring hp newPop \<longleftrightarrow>
     (\<forall>v \<in> set newPop. \<exists>ind. v = Some ind \<and> chromosome ind < length hp)"

lemma validOffspring_grow:
  "validOffspring hp newPop \<Longrightarrow> length hp \<le> length hp' \<Longrightarrow> validOffspring hp' newPop"
  unfolding validOffspring_def by force

lemma fillPopulation_valid:
  "distinct (map task_id (tasks ga)) \<Longrightarrow> tasks ga \<noteq> [] \<Longrightarrow> validRefs hp0 pop \<Longrightarrow> pop \<noteq> [] \<Longrightarrow>
   validRandom rand \<Longrightarrow> validHeap (tasks ga) hp \<Longrightarrow> length hp0 \<le> length hp \<Longrightarrow>
   validOffspring hp newPop \<Longrightarrow> int (length newPop) \<le> populationSize ga \<Longrightarrow>
     \<exists>hp' c' newPop'. fillPopulation ga rand pop hp c newPop = Some (Inr (hp', c', newPop'))
        \<and> validHeap (tasks ga) hp' \<and> validOffspring hp' newPop'
        \<and> int (length newPop') = populationSize ga"
proof (induction ga rand pop hp c newPop rule: fillPopulation.induct)
  case (1 ga rand population hp c newPopulation)
  show ?case
  proof (cases "int (length newPopulation) < populationSize ga")
    case False
    with "1.prems" show ?thesis
      by (subst fillPopulation.simps) simp
  next
    case True
    have refs': "validRefs hp population"
      using "1.prems"(3,7) by (rule validRefs_grow)
    from reproduce_valid [OF "1.prems"(1,2) "1.prems"(6) refs' "1.prems"(4,5), of c]
    obtain o1 o2 hp1 c1 where
      rp: "reproduce ga rand population hp c = Some (Inr ((Some o1, Some o2), hp1, c1))"
        "validHeap (tasks ga) hp1" "length hp \<le> length hp1"
        "chromosome o1 < length hp1" "chromosome o2 < length hp1" by blast
    let ?next = "if int (length (newPopulation @ [Some o1])) < populationSize ga
                 then newPopulation @ [Some o1] @ [Some o2] else newPopulation @ [Some o1]"
    have vo: "validOffspring hp1 ?next"
      using validOffspring_grow [OF "1.prems"(8) rp(3)] rp(4,5)
      by (auto simp: validOffspring_def)
    have len: "int (length ?next) \<le> populationSize ga" using True by auto
    have l0: "length hp0 \<le> length hp1" using "1.prems"(7) rp(3) by simp
    from "1.IH" [OF True rp(1) refl refl refl refl "1.prems"(1,2,3,4,5) rp(2) l0 vo len]
    obtain hp' c' newPop' where
      "fillPopulation ga rand population hp1 c1 ?next = Some (Inr (hp', c', newPop'))"
      "validHeap (tasks ga) hp'" "validOffspring hp' newPop'"
      "int (length newPop') = populationSize ga" by blast
    then show ?thesis
      using True rp(1) by (subst fillPopulation.simps) simp
  qed
qed

lemma eliteCount_eq: "eliteCount n = max 1 (n div 10)"
proof -
  have "real_of_int n * 0.1 = real_of_int n / real_of_int 10" by simp
  then have "\<lfloor>real_of_int n * 0.1\<rfloor> = n div 10"
    by (simp only: floor_divide_of_int_eq)
  then show ?thesis by (simp add: eliteCount_def)
qed

lemma elites_take:
  assumes "nat (eliteCount n) \<le> length pop"
  shows "elites n pop = map Some (take (nat (eliteCount n)) (sort_key fitness pop))"
proof (rule nth_equalityI)
  show "length (elites n pop) = length (map Some (take (nat (eliteCount n)) (sort_key fitness pop)))"
    using assms by (simp add: elites_def)
next
  fix i assume "i < length (elites n pop)"
  then have i: "i < nat (eliteCount n)" by (simp add: elites_def)
  then have "i < length (sort_key fitness pop)" using assms by simp
  then show "elites n pop ! i = map Some (take (nat (eliteCount n)) (sort_key fitness pop)) ! i"
    using i by (simp add: elites_def Let_def js_get_nat)
qed

lemma eliteCount_le: "1 \<le> n \<Longrightarrow> 1 \<le> eliteCount n \<and> eliteCount n \<le> n"
  by (simp add: eliteCount_eq)

definition validState :: "GeneticAlgorithmParams \<Rightarrow> RunState \<Rightarrow> bool" where
  "validState ga st \<longleftrightarrow>
     validHeap (tasks ga) (heap st) \<and> validRefs (heap st) (population st)
     \<and> int (length (population st)) = populationSize ga"

lemma createNewGeneration_valid:
  assumes dist: "distinct (map task_id (tasks ga))" and ne: "tasks ga \<noteq> []"
    and ps: "1 \<le> populationSize ga" and r: "validRandom rand"
    and hp: "validHeap (tasks ga) hp" and refs: "validRefs hp pop"
    and len: "int (length pop) = populationSize ga"
  shows "\<exists>hp' c' pop'. createNewGeneration ga rand pop hp c = Some (Inr (hp', c', map Some pop'))
     \<and> validHeap (tasks ga) hp' \<and> validRefs hp' pop' \<and> int (length pop') = populationSize ga"
proof -
  have pne: "pop \<noteq> []" using ps len by auto
  have k: "nat (eliteCount (populationSize ga)) \<le> length pop"
    using eliteCount_le [OF ps] len by linarith
  have el: "elites (populationSize ga) pop
      = map Some (take (nat (eliteCount (populationSize ga))) (sort_key fitness pop))"
    by (rule elites_take [OF k])
  have "set (take (nat (eliteCount (populationSize ga))) (sort_key fitness pop)) \<subseteq> set pop"
    using set_take_subset [of _ "sort_key fitness pop"] by simp
  then have vo: "validOffspring hp (elites (populationSize ga) pop)"
    using refs unfolding el validOffspring_def validRefs_def by auto
  have l: "int (length (elites (populationSize ga) pop)) \<le> populationSize ga"
    unfolding el using eliteCount_le [OF ps] len k by simp
  from fillPopulation_valid [OF dist ne refs pne r hp order_refl vo l, of c]
  obtain hp' c' newPop' where
    f: "fillPopulation ga rand pop hp c (elites (populationSize ga) pop)
        = Some (Inr (hp', c', newPop'))"
      "validHeap (tasks ga) hp'" "validOffspring hp' newPop'"
      "int (length newPop') = populationSize ga" by blast
  define pop' where "pop' = map the newPop'"
  have np: "newPop' = map Some pop'"
    using f(3) unfolding pop'_def validOffspring_def
    by (intro nth_equalityI) (auto simp: in_set_conv_nth)
  have "validRefs hp' pop'"
    using f(3) unfolding validRefs_def validOffspring_def np by auto
  moreover have "int (length pop') = populationSize ga" using f(4) np by simp
  ultimately show ?thesis using f(1,2) np by (auto simp: createNewGeneration_def)
qed

lemma generationStep_valid:
  assumes dist: "distinct (map task_id (tasks ga))" and ne: "tasks ga \<noteq> []"
    and ps: "1 \<le> populationSize ga" and r: "validRandom rand" and st: "validState ga st"
  shows "\<exists>st1. generationStep ga rand g st = Some (st1, None) \<and> validState ga st1"
proof -
  from createNewGeneration_valid [OF dist ne ps r, of "heap st" "population st" "cursor st"] st
  obtain hp1 c1 pop1 where
    cg: "createNewGeneration ga rand (population st) (heap st) (cursor st)
        = Some (Inr (hp1, c1, map Some pop1))"
      "validHeap (tasks ga) hp1" "validRefs hp1 pop1" "int (length pop1) = populationSize ga"
    by (auto simp: validState_def)
  from evaluatePopulation_valid [OF cg(2,3), of ga] obtain pop2 where
    ev: "evaluatePopulation ga hp1 (map Some pop1) = Inr pop2"
      "map chromosome pop2 = map chromosome pop1" by blast
  have refs2: "validRefs hp1 pop2" by (rule validRefs_chromosomes [OF ev(2) cg(3)])
  have len2: "int (length pop2) = populationSize ga"
    using cg(4) map_eq_imp_length_eq [OF ev(2)] by simp
  then have "pop2 \<noteq> []" using ps by auto
  from findBestIndividual_nonempty [OF this] obtain b where
    b: "findBestIndividual pop2 = Some b" by blast
  show ?thesis
    unfolding generationStep_def cg(1) using ev(1) b cg(2) refs2 len2
    by (simp add: Let_def validState_def)
qed

lemma chunkLoop_valid:
  "distinct (map task_id (tasks ga)) \<Longrightarrow> tasks ga \<noteq> [] \<Longrightarrow> 1 \<le> populationSize ga \<Longrightarrow>
   validRandom rand \<Longrightarrow> validState ga st \<Longrightarrow>
   \<exists>st1. chunkLoop ga rand endChunk g st = Some (st1, None) \<and> validState ga st1"
proof (induction ga rand endChunk g st rule: chunkLoop.induct)
  case (1 ga rand endChunk g st)
  show ?case
  proof (cases "g < endChunk")
    case False
    with "1.prems" show ?thesis by (subst chunkLoop.simps) simp
  next
    case True
    from generationStep_valid [OF "1.prems", of g] obtain st2 where
      gs: "generationStep ga rand g st = Some (st2, None)" "validState ga st2" by blast
    show ?thesis
    proof (cases "generationsWithoutImprovement st2 \<ge> earlyStopGenerations ga")
      case True
      with \<open>g < endChunk\<close> gs show ?thesis by (subst chunkLoop.simps) simp
    next
      case False
      from "1.IH" [OF True gs(1) refl refl False "1.prems"(1,2,3,4) gs(2)]
      show ?thesis using True gs(1) False by (subst chunkLoop.simps) simp
    qed
  qed
qed

lemma mainLoop_valid:
  "distinct (map task_id (tasks ga)) \<Longrightarrow> tasks ga \<noteq> [] \<Longrightarrow> 1 \<le> populationSize ga \<Longrightarrow>
   validRandom rand \<Longrightarrow> validState ga st \<Longrightarrow>
   \<exists>st1. mainLoop ga rand generation st = Some (st1, None)"
proof (induction ga rand generation st rule: mainLoop.induct)
  case (1 ga rand generation st)
  show ?case
  proof (cases "generation < maxGenerations ga")
    case False
    then show ?thesis by (subst mainLoop.simps) simp
  next
    case True
    define endChunk where "endChunk = min (generation + processingChunkSize ga) (maxGenerations ga)"
    from chunkLoop_valid [OF "1.prems", of endChunk generation] obtain st2 where
      cl: "chunkLoop ga rand endChunk generation st = Some (st2, None)" "validState ga st2"
      by blast
    from "1.IH" [OF True endChunk_def cl(1) refl refl "1.prems"(1,2,3,4) cl(2)]
    show ?thesis using True cl(1)
      by (subst mainLoop.simps) (simp add: Let_def endChunk_def)
  qed
qed

lemma run_completes:
  assumes dist: "distinct (map task_id (tasks ga))" and ne: "tasks ga \<noteq> []"
    and ps: "1 \<le> populationSize ga" and r: "validRandom (random rnd)"
    and sh: "validShuffle (tasks ga) (shuffle rnd)"
  shows "\<exists>tr. run ga rnd = Some (tr, None)"
proof -
  obtain heap0 population0 where ip: "initializePopulation ga rnd = (heap0, population0)"
    by (cases "initializePopulation ga rnd")
  have "validHeap (tasks ga) []" "validRefs [] []" by (simp_all add: validHeap_def validRefs_def)
  from initializeLoop_valid [OF ip [unfolded initializePopulation_def] sh this]
  have v0: "validHeap (tasks ga) heap0" "validRefs heap0 population0"
    "int (length population0) = populationSize ga" using ps by simp_all
  from evaluatePopulation_valid [OF v0(1,2), of ga] obtain population1 where
    ev: "evaluatePopulation ga heap0 (map Some population0) = Inr population1"
      "map chromosome population1 = map chromosome population0" by blast
  have refs1: "validRefs heap0 population1" by (rule validRefs_chromosomes [OF ev(2) v0(2)])
  have len1: "int (length population1) = populationSize ga"
    using v0(3) map_eq_imp_length_eq [OF ev(2)] by simp
  then have "population1 \<noteq> []" using ps by auto
  from findBestIndividual_nonempty [OF this] obtain initialBest where
    b: "findBestIndividual population1 = Some initialBest" by blast
  define st where "st = \<lparr>heap = heap0, cursor = 0, population = population1,
      bestSolution = initialBest, lastBestFitness = fitness initialBest,
      generationsWithoutImprovement = 0,
      trace = [report 0 heap0 initialBest (calculatePopulationStatistics population1)]\<rparr>"
  have "validState ga st" using v0(1) refs1 len1 by (simp add: validState_def st_def)
  from mainLoop_valid [OF dist ne ps r this, of 0] obtain st1 where
    "mainLoop ga (random rnd) 0 st = Some (st1, None)" by blast
  then show ?thesis
    using ip ev(1) b by (simp add: run_def Let_def st_def)
qed

section \<open>Claims about the evaluator and the genetic scheduler\<close>

text \<open>
  C4.  The evaluator starts at the home position (2,2) with time 0 and idle distance 0.
  Each further task adds the Euclidean distance from the position reached so far to
  the makespan, adds the same distance to the idle distance exactly when the task is
  a DELIVERY, and adds the processing time to the makespan; the position reached
  becomes the position of the task.  On the scenario of the specification the
  makespan is dist((2,2),(5,5))+5+1+3+1+4 and the idle distance is
  dist((2,2),(5,5))+1, that is 18.2426 and 5.2426 up to 0.0001.  The evaluator of the
  genetic scheduler computes the same values on an array of tasks.
\<close>

theorem calculateMetrics_replay:
  "calculateMetrics [] = \<lparr>makespan = 0, idleDistance = 0\<rparr>
   \<and> calculateMetrics (sol @ [t]) =
       (let d = euclid (position t) (finalPosition sol)
        in \<lparr>makespan = makespan (calculateMetrics sol) + d + processingTime t,
            idleDistance = idleDistance (calculateMetrics sol)
                           + (if task_type t = DELIVERY then d else 0)\<rparr>)
   \<and> calculateFitness (map Some sol) = Inr (calculateMetrics sol)
   \<and> makespan (calculateMetrics scenario) = euclid home \<lparr>x = 5, y = 5\<rparr> + 5 + 1 + 3 + 1 + 4
   \<and> idleDistance (calculateMetrics scenario) = euclid home \<lparr>x = 5, y = 5\<rparr> + 1
   \<and> \<bar>makespan (calculateMetrics scenario) - 18.2426\<bar> < 0.0001
   \<and> \<bar>idleDistance (calculateMetrics scenario) - 5.2426\<bar> < 0.0001"
proof -
  have e: "calculateMetrics [] = \<lparr>makespan = 0, idleDistance = 0\<rparr>"
    by (simp add: calculateMetrics_def evalStart_def)
  have s: "calculateMetrics (sol @ [t]) =
       (let d = euclid (position t) (finalPosition sol)
        in \<lparr>makespan = makespan (calculateMetrics sol) + d + processingTime t,
            idleDistance = idleDistance (calculateMetrics sol)
                           + (if task_type t = DELIVERY then d else 0)\<rparr>)"
    using currentPosition_foldl [of sol]
    by (simp add: calculateMetrics_def Let_def evalStep_def euclid_def)
  have m: "makespan (calculateMetrics scenario) = sqrt 18 + 14"
    and i: "idleDistance (calculateMetrics scenario) = sqrt 18 + 1"
    by (simp_all add: calculateMetrics_def scenario_def evalStart_def evalStep_def Let_def)
  have h: "euclid home \<lparr>x = 5, y = 5\<rparr> = sqrt 18"
    by (simp add: euclid_def home_def)
  show ?thesis using e s m i h sqrt18_bounds calculateFitness_total [of sol] by simp
qed

lemma reports_length: "OnComplete \<notin> set es \<Longrightarrow> length (reports es) = length es"
  by (induction es rule: reports.induct) simp_all

lemma fillPopulation_prefix:
  "fillPopulation ga rand pop hp c newPop = Some (Inr (hp', c', newPop')) \<Longrightarrow>
   take (length newPop) newPop' = newPop"
proof (induction ga rand pop hp c newPop rule: fillPopulation.induct)
  case (1 ga rand population hp c newPopulation)
  note unf = "1.prems" [unfolded fillPopulation.simps [of ga rand population hp c newPopulation]]
  show ?case
  proof (cases "int (length newPopulation) < populationSize ga")
    case False
    with unf show ?thesis by simp
  next
    case True
    then obtain o1 o2 hp1 c1 where
      rp: "reproduce ga rand population hp c = Some (Inr ((o1, o2), hp1, c1))"
      using unf by (auto split: option.splits sum.splits)
    let ?next = "if int (length (newPopulation @ [o1])) < populationSize ga
                 then newPopulation @ [o1] @ [o2] else newPopulation @ [o1]"
    have "fillPopulation ga rand population hp1 c1 ?next = Some (Inr (hp', c', newPop'))"
      using unf True rp by simp
    from "1.IH" [OF True rp refl refl refl refl this]
    have "take (length ?next) newPop' = ?next" .
    then have "take (length newPopulation) (take (length ?next) newPop')
        = take (length newPopulation) ?next" by simp
    then show ?thesis by (simp add: min_def split: if_splits)
  qed
qed

lemma length_elites: "length (elites n pop) = nat (eliteCount n)"
  by (simp add: elites_def)

lemma findUnused_diverges:
  assumes "\<forall>v \<in> set parent. \<exists>t. v = Some t \<and> task_id t \<in> used"
    and "0 \<le> j" "j < int (length parent)"
  shows "findUnused used parent j = None"
proof -
  have "\<not> ((\<forall>v \<in> set p. \<exists>t. v = Some t \<and> task_id t \<in> u) \<and> 0 \<le> k \<and> k < int (length p))"
    if "findUnused u p k = Some y" for u p k y
    using that
  proof (induction rule: findUnused.raw_induct [rotated 1, consumes 1, case_names 1])
    case (1 rec u p k y)
    show ?case
    proof
      assume a: "(\<forall>v \<in> set p. \<exists>t. v = Some t \<and> task_id t \<in> u) \<and> 0 \<le> k \<and> k < int (length p)"
      then have "nat k < length p" by linarith
      then have "p ! nat k \<in> set p" by (rule nth_mem)
      with a obtain t where t: "p ! nat k = Some t" "task_id t \<in> u" by blast
      then have "js_get p k = Some t" using a by (simp add: js_get_def)
      with 1(2) t(2) have "rec u p ((k + 1) mod int (length p)) = Some y" by simp
      moreover have "0 < int (length p)" using a by linarith
      then have "0 \<le> (k + 1) mod int (length p)" "(k + 1) mod int (length p) < int (length p)"
        by (rule pos_mod_sign, rule pos_mod_bound)
      ultimately show False using 1(1) a by blast
    qed
  qed
  note none = this
  show ?thesis
  proof (cases "findUnused used parent j")
    case None
    then show ?thesis .
  next
    case (Some y)
    from none [OF this] assms show ?thesis by blast
  qed
qed

lemma initializeLoop_none: "n \<le> i \<Longrightarrow> initializeLoop rnd n i st = st"
  by (cases st) (simp add: initializeLoop.simps)

lemma run_nonpositive_population:
  assumes "populationSize ga \<le> 0"
  shows "run ga rnd = Some ([], Some TypeError)"
  using assms
  by (simp add: run_def initializePopulation_def initializeLoop_none findBestIndividual_empty)

lemma stats_all_zero:
  assumes "\<forall>ind \<in> set pop. fitness ind = 0"
  shows "calculatePopulationStatistics pop
     = \<lparr>averageFitness = 0, worstFitness = 0, standardDeviation = 0\<rparr>"
proof -
  have s: "foldl (\<lambda>sum individual. sum + fitness individual) a pop = a" for a
    using assms by (induction pop arbitrary: a) simp_all
  have w: "foldl (\<lambda>worst current. if fitness current > worst then fitness current else worst)
      0 pop = 0"
    using assms by (induction pop) simp_all
  have q: "foldl (\<lambda>sum individual. sum + (fitness individual)\<^sup>2) a pop = a" for a
    using assms by (induction pop arbitrary: a) simp_all
  have f: "(case pop of [] \<Rightarrow> 0 | first # _ \<Rightarrow> fitness first) = 0"
    using assms by (cases pop) simp_all
  show ?thesis
    by (simp add: calculatePopulationStatistics_def Let_def s w q f)
qed

lemma evaluatePopulation_empty_tasks:
  "validHeap [] hp \<Longrightarrow> validRefs hp pop \<Longrightarrow>
   \<exists>pop'. evaluatePopulation ga hp (map Some pop) = Inr pop'
      \<and> length pop' = length pop
      \<and> (\<forall>ind \<in> set pop'. fitness ind = 0 \<and> makespan ind = 0 \<and> idleDistance ind = 0
            \<and> hp ! chromosome ind = [])"
proof (induction pop)
  case Nil
  then show ?case by simp
next
  case (Cons ind pop)
  then have "isPermutationOf [] (hp ! chromosome ind)"
    by (simp add: validHeap_def validRefs_def)
  then have e: "hp ! chromosome ind = []" by (simp add: isPermutationOf_def)
  have m: "calculateFitness [] = Inr \<lparr>makespan = 0, idleDistance = 0\<rparr>"
    by (simp add: calculateFitness_def evalStart_def)
  from Cons have "validRefs hp pop" by (simp add: validRefs_def)
  from Cons.IH [OF Cons.prems(1) this] obtain pop' where
    "evaluatePopulation ga hp (map Some pop) = Inr pop'" "length pop' = length pop"
    "\<forall>ind \<in> set pop'. fitness ind = 0 \<and> makespan ind = 0 \<and> idleDistance ind = 0
        \<and> hp ! chromosome ind = []"
    by blast
  with e m show ?case by simp
qed

lemma run_empty_tasks:
  assumes e: "tasks ga = []" and ps: "1 \<le> populationSize ga" and mg: "maxGenerations ga \<le> 0"
    and sh: "validShuffle [] (shuffle rnd)"
  shows "run ga rnd
     = Some ([OnGenerationComplete 0 [] 0 0 0
                \<lparr>averageFitness = 0, worstFitness = 0, standardDeviation = 0\<rparr>,
              OnComplete], None)"
proof -
  obtain heap0 population0 where ip: "initializePopulation ga rnd = (heap0, population0)"
    by (cases "initializePopulation ga rnd")
  have "validHeap [] []" "validRefs [] []" by (simp_all add: validHeap_def validRefs_def)
  from initializeLoop_valid [OF ip [unfolded initializePopulation_def] sh this]
  have v0: "validHeap [] heap0" "validRefs heap0 population0"
    "int (length population0) = populationSize ga" using ps by simp_all
  from evaluatePopulation_empty_tasks [OF v0(1,2), of ga] obtain population1 where
    ev: "evaluatePopulation ga heap0 (map Some population0) = Inr population1"
      "length population1 = length population0"
      "\<forall>ind \<in> set population1. fitness ind = 0 \<and> makespan ind = 0 \<and> idleDistance ind = 0
        \<and> heap0 ! chromosome ind = []" by blast
  have "population1 \<noteq> []" using ev(2) v0(3) ps by auto
  from findBestIndividual_nonempty [OF this] obtain b where
    b: "findBestIndividual population1 = Some b" "b \<in> set population1" by blast
  have z: "fitness b = 0" "makespan b = 0" "idleDistance b = 0" "heap0 ! chromosome b = []"
    using ev(3) b(2) by simp_all
  have st: "calculatePopulationStatistics population1
      = \<lparr>averageFitness = 0, worstFitness = 0, standardDeviation = 0\<rparr>"
    using ev(3) by (intro stats_all_zero) simp
  show ?thesis
    using ip ev(1) b(1) z st mg
    by (simp add: run_def Let_def report_def mainLoop.simps)
qed

text \<open>
  With an empty task list every array of the store holds nothing but \<open>undefined\<close>
  (mutation and crossover may write \<open>undefined\<close> at index 0 and so lengthen an array).
  On such a store the \<open>while\<close> loop of \<open>fillRemainingPositions\<close> raises a
  \<open>TypeError\<close> at its first test, so every step of the run returns, with or without an
  error, whatever \<open>Math.random()\<close> yields.
\<close>

definition blank :: "TaskArray \<Rightarrow> bool" where
  "blank a \<longleftrightarrow> set a \<subseteq> {None}"

definition blankHeap :: "TaskArray list \<Rightarrow> bool" where
  "blankHeap hp \<longleftrightarrow> (\<forall>a \<in> set hp. blank a)"

definition someRefs :: "TaskArray list \<Rightarrow> Individual option list \<Rightarrow> bool" where
  "someRefs hp newPop \<longleftrightarrow> (\<forall>ind. Some ind \<in> set newPop \<longrightarrow> chromosome ind < length hp)"

definition blankState :: "RunState \<Rightarrow> bool" where
  "blankState st \<longleftrightarrow> blankHeap (heap st) \<and> validRefs (heap st) (population st)"

lemma js_get_blank:
  assumes "blank a"
  shows "js_get a i = None"
proof (cases "0 \<le> i \<and> i < int (length a)")
  case True
  then have "nat i < length a" by linarith
  then have "a ! nat i \<in> set a" by (rule nth_mem)
  with assms have "a ! nat i = None" by (auto simp: blank_def)
  with True show ?thesis by (simp add: js_get_def)
next
  case False
  then show ?thesis by (auto simp: js_get_def)
qed

lemma js_set_blank: "blank a \<Longrightarrow> blank (js_set a i None)"
  unfolding blank_def js_set_def by (auto dest: set_update_subset_insert [THEN subsetD])

lemma js_slice_blank: "blank a \<Longrightarrow> blank (js_slice a i j)"
  unfolding blank_def js_slice_def Let_def
  by (auto dest!: in_set_takeD in_set_dropD)

lemma rev_blank: "blank a \<Longrightarrow> blank (rev a)"
  by (simp add: blank_def)

lemma swapMutation_blank: "blank a \<Longrightarrow> blank (swapMutation r1 r2 a)"
  by (simp add: swapMutation_def Let_def js_get_blank js_set_blank)

lemma foldl_js_set_blank:
  "blank seg \<Longrightarrow> blank c \<Longrightarrow> blank (foldl (\<lambda>c i. js_set c i (js_get seg (f i))) c is)"
  by (induction "is" arbitrary: c) (simp_all add: js_get_blank js_set_blank)

lemma inversionMutation_blank: "blank a \<Longrightarrow> blank (inversionMutation r1 r2 a)"
  unfolding inversionMutation_def Let_def
  by (rule foldl_js_set_blank) (simp_all add: rev_blank js_slice_blank)

lemma mutateArray_blank: "blank a \<Longrightarrow> blank (mutateArray rate r0 r1 r2 r3 a)"
  by (simp add: mutateArray_def swapMutation_blank inversionMutation_blank)

lemma copySegments_blank:
  assumes "blank c1" "blank c2"
  shows "blank o1 \<Longrightarrow> blank o2 \<Longrightarrow>
   foldl (\<lambda>(offspring1, offspring2) i.
              (js_set offspring1 i (js_get c2 i), js_set offspring2 i (js_get c1 i)))
       (o1, o2) is = (o1', o2') \<Longrightarrow> blank o1' \<and> blank o2'"
proof (induction "is" arbitrary: o1 o2)
  case Nil
  then show ?case by simp
next
  case (Cons i "is")
  have "blank (js_set o1 i (js_get c2 i))" "blank (js_set o2 i (js_get c1 i))"
    using assms Cons.prems(1,2) by (simp_all add: js_get_blank js_set_blank)
  from Cons.IH [OF this] Cons.prems(3) show ?case by simp
qed

lemma findUnused_blank: "blank parent \<Longrightarrow> findUnused used parent j = Some (Inl TypeError)"
  by (subst findUnused.simps) (simp add: js_get_blank)

lemma fillLoop_blank:
  "blank parent \<Longrightarrow>
   fillLoop parent p1 p2 i used off = Some (Inl TypeError)
   \<or> fillLoop parent p1 p2 i used off = Some (Inr off)"
proof (induction "nat (int (length parent) - i)" arbitrary: i)
  case 0
  then show ?case by (simp add: fillLoop.simps [of parent p1 p2 i])
next
  case (Suc n)
  then have lt: "i < int (length parent)" by linarith
  show ?case
  proof (cases "i < p1 \<or> i > p2")
    case True
    with lt Suc.prems show ?thesis
      by (simp add: fillLoop.simps [of parent p1 p2 i] findUnused_blank)
  next
    case False
    have "n = nat (int (length parent) - (i + 1))" using Suc(2) by linarith
    from Suc(1) [OF this Suc.prems] False lt show ?thesis
      by (simp add: fillLoop.simps [of parent p1 p2 i])
  qed
qed

lemma replicate_blank: "blank (replicate n None)"
  by (auto simp: blank_def)

lemma crossoverArrays_blank:
  assumes "blank c1" "blank c2"
  shows "\<exists>r. crossoverArrays r1 r2 c1 c2 = Some r
     \<and> (\<forall>o1 o2. r = Inr (o1, o2) \<longrightarrow> blank o1 \<and> blank o2)"
proof -
  define p1 where "p1 = randomInt r1 (int (length c1) - 1)"
  define p2 where "p2 = p1 + randomInt r2 (int (length c1) - p1)"
  obtain o1 o2 where
    cs: "copySegments c1 c2 p1 p2 (replicate (length c1) None, replicate (length c1) None)
         = (o1, o2)"
    by (cases "copySegments c1 c2 p1 p2 (replicate (length c1) None, replicate (length c1) None)")
  from copySegments_blank [OF assms replicate_blank replicate_blank cs [unfolded copySegments_def]]
  have b: "blank o1" "blank o2" by simp_all
  from fillLoop_blank [OF assms(1), of p1 p2 0 "segmentIds o1 p1 p2" o1]
    fillLoop_blank [OF assms(2), of p1 p2 0 "segmentIds o2 p1 p2" o2]
  show ?thesis
    unfolding crossoverArrays_def Let_def p1_def [symmetric] p2_def [symmetric] cs
      fillRemainingPositions_def
    using b by auto
qed

lemma crossover_blank:
  assumes "blankHeap hp"
    and "\<forall>p. parent1 = Some p \<longrightarrow> chromosome p < length hp"
    and "\<forall>p. parent2 = Some p \<longrightarrow> chromosome p < length hp"
  shows "\<exists>r. crossover r1 r2 hp parent1 parent2 = Some r
     \<and> (\<forall>c1 c2 hp'. r = Inr ((c1, c2), hp') \<longrightarrow>
           blankHeap hp' \<and> length hp \<le> length hp'
           \<and> chromosome c1 < length hp' \<and> chromosome c2 < length hp')"
proof (cases parent1)
  case None
  then show ?thesis by (simp add: crossover_def)
next
  case p1: (Some p1)
  show ?thesis
  proof (cases parent2)
    case None
    with p1 show ?thesis by (simp add: crossover_def)
  next
    case p2: (Some p2)
    have "blank (hp ! chromosome p1)" "blank (hp ! chromosome p2)"
      using assms p1 p2 by (simp_all add: blankHeap_def)
    from crossoverArrays_blank [OF this, of r1 r2] obtain r where
      r: "crossoverArrays r1 r2 (hp ! chromosome p1) (hp ! chromosome p2) = Some r"
        "\<forall>o1 o2. r = Inr (o1, o2) \<longrightarrow> blank o1 \<and> blank o2" by blast
    show ?thesis
    proof (cases r)
      case (Inl e)
      with r p1 p2 show ?thesis by (simp add: crossover_def)
    next
      case (Inr oo)
      obtain o1 o2 where oo: "oo = (o1, o2)" by (cases oo)
      with r Inr have "blank o1" "blank o2" by simp_all
      with assms(1) have "blankHeap (hp @ [o1, o2])" by (simp add: blankHeap_def)
      with r(1) Inr oo p1 p2 show ?thesis by (simp add: crossover_def newIndividual_def)
    qed
  qed
qed

lemma mutate_blank:
  assumes "blankHeap hp" and "\<forall>ind. individual = Some ind \<longrightarrow> chromosome ind < length hp"
    and "mutate rate rand c hp individual = Inr (hp', c')"
  shows "blankHeap hp' \<and> length hp' = length hp"
proof (cases "rand c > rate")
  case True
  with assms show ?thesis by (simp add: mutate_def)
next
  case False
  with assms(3) obtain ind where i: "individual = Some ind"
    by (cases individual) (simp_all add: mutate_def)
  with assms(2) have ref: "chromosome ind < length hp" by simp
  with assms(1) have "blank (hp ! chromosome ind)" by (simp add: blankHeap_def)
  then have "blank (mutateArray rate (rand c) (rand (c + 1)) (rand (c + 2)) (rand (c + 3))
      (hp ! chromosome ind))" by (rule mutateArray_blank)
  with assms(1) have "blankHeap (hp[chromosome ind :=
      mutateArray rate (rand c) (rand (c + 1)) (rand (c + 2)) (rand (c + 3))
        (hp ! chromosome ind)])"
    unfolding blankHeap_def by (auto dest: set_update_subset_insert [THEN subsetD])
  with assms(3) False i show ?thesis by (auto simp: mutate_def)
qed

lemma tournamentRound_member:
  assumes "tournamentRound pop (Inr best) r = Inr (Some ind)"
    and "\<forall>b. best = Some b \<longrightarrow> b \<in> set pop"
  shows "ind \<in> set pop"
proof -
  have g: "js_get (map Some pop) i = Some x \<Longrightarrow> x \<in> set pop" for i x
    by (auto simp: js_get_def split: if_splits)
  from assms show ?thesis
    unfolding tournamentRound_def Let_def
    by (auto split: option.splits if_splits dest: g)
qed

lemma tournamentRound_Inl: "tournamentRound pop (Inl e) r = Inl e"
  by (simp add: tournamentRound_def)

lemma tournamentSelection_member:
  assumes "tournamentSelection rand c pop = Inr (Some ind)"
  shows "ind \<in> set pop"
proof -
  let ?a1 = "tournamentRound pop (Inr None) (rand c)"
  let ?a2 = "tournamentRound pop ?a1 (rand (c + 1))"
  from assms have 3: "tournamentRound pop ?a2 (rand (c + 2)) = Inr (Some ind)"
    by (simp add: tournamentSelection_def)
  then obtain b2 where a2: "?a2 = Inr b2"
    by (cases ?a2) (simp_all add: tournamentRound_Inl)
  then obtain b1 where a1: "?a1 = Inr b1"
    by (cases ?a1) (simp_all add: tournamentRound_Inl)
  have m1: "\<forall>b. b1 = Some b \<longrightarrow> b \<in> set pop"
    using tournamentRound_member [of pop None "rand c"] a1 by auto
  have m2: "\<forall>b. b2 = Some b \<longrightarrow> b \<in> set pop"
    using tournamentRound_member [of pop b1 "rand (c + 1)"] a1 a2 m1 by auto
  from tournamentRound_member [of pop b2 "rand (c + 2)" ind] 3 a2 m2 show ?thesis by auto
qed

lemma reproduce_blank:
  assumes hp: "blankHeap hp" and refs: "validRefs hp pop"
  shows "\<exists>r. reproduce ga rand pop hp c = Some r
     \<and> (\<forall>o1 o2 hp' c'. r = Inr ((o1, o2), hp', c') \<longrightarrow>
           blankHeap hp' \<and> length hp \<le> length hp' \<and> someRefs hp' [o1, o2])"
proof (cases "tournamentSelection rand c pop")
  case (Inl e)
  then show ?thesis by (simp add: reproduce_def)
next
  case s1: (Inr parent1)
  show ?thesis
  proof (cases "tournamentSelection rand (c + 3) pop")
    case (Inl e)
    with s1 show ?thesis by (simp add: reproduce_def)
  next
    case s2: (Inr parent2)
    have r1: "\<forall>p. parent1 = Some p \<longrightarrow> chromosome p < length hp"
      using tournamentSelection_member [of rand c pop] s1 refs by (auto simp: validRefs_def)
    have r2: "\<forall>p. parent2 = Some p \<longrightarrow> chromosome p < length hp"
      using tournamentSelection_member [of rand "c + 3" pop] s2 refs by (auto simp: validRefs_def)
    let ?x = "(if rand (c + 6) < crossoverRate ga
         then (case crossover (rand (c + 7)) (rand (c + 8)) hp parent1 parent2 of
                 None \<Rightarrow> None
               | Some (Inl e) \<Rightarrow> Some (Inl e)
               | Some (Inr ((child1, child2), heap1)) \<Rightarrow>
                   Some (Inr ((Some child1, Some child2), heap1, c + 9)))
         else Some (Inr ((parent1, parent2), hp, c + 7)))"
    have "\<exists>x. ?x = Some x
       \<and> (\<forall>o1 o2 hp1 c1. x = Inr ((o1, o2), hp1, c1) \<longrightarrow>
            blankHeap hp1 \<and> length hp \<le> length hp1 \<and> someRefs hp1 [o1, o2])"
    proof (cases "rand (c + 6) < crossoverRate ga")
      case True
      from crossover_blank [OF hp r1 r2, of "rand (c + 7)" "rand (c + 8)"] obtain r where
        r: "crossover (rand (c + 7)) (rand (c + 8)) hp parent1 parent2 = Some r"
          "\<forall>c1 c2 hp'. r = Inr ((c1, c2), hp') \<longrightarrow>
             blankHeap hp' \<and> length hp \<le> length hp'
             \<and> chromosome c1 < length hp' \<and> chromosome c2 < length hp'" by blast
      show ?thesis
      proof (cases r)
        case (Inl e)
        with r(1) True show ?thesis by simp
      next
        case (Inr v)
        obtain k1 k2 hp1 where v: "v = ((k1, k2), hp1)" by (cases v) auto
        with r Inr True show ?thesis by (simp add: someRefs_def)
      qed
    next
      case False
      with hp r1 r2 show ?thesis by (simp add: someRefs_def)
    qed
    then obtain x where
      x: "?x = Some x"
        "\<forall>o1 o2 hp1 c1. x = Inr ((o1, o2), hp1, c1) \<longrightarrow>
            blankHeap hp1 \<and> length hp \<le> length hp1 \<and> someRefs hp1 [o1, o2]" by blast
    show ?thesis
    proof (cases x)
      case (Inl e)
      with x(1) s1 s2 show ?thesis by (simp add: reproduce_def)
    next
      case (Inr v)
      obtain o1 o2 hp1 c1 where v: "v = ((o1, o2), hp1, c1)" by (cases v) auto
      with x Inr have b1: "blankHeap hp1" "length hp \<le> length hp1" "someRefs hp1 [o1, o2]"
        by simp_all
      have xe: "?x = Some (Inr ((o1, o2), hp1, c1))" using x(1) Inr v by simp
      show ?thesis
      proof (cases "mutate (mutationRate ga) rand c1 hp1 o1")
        case (Inl e)
        show ?thesis unfolding reproduce_def s1 s2 using xe Inl by simp
      next
        case m1: (Inr w)
        obtain hp2 c2 where w: "w = (hp2, c2)" by (cases w)
        from mutate_blank [OF b1(1) _ m1 [unfolded w]] b1(3)
        have b2: "blankHeap hp2" "length hp2 = length hp1" by (simp_all add: someRefs_def)
        show ?thesis
        proof (cases "mutate (mutationRate ga) rand c2 hp2 o2")
          case (Inl e)
          show ?thesis unfolding reproduce_def s1 s2 using xe m1 w Inl by simp
        next
          case m2: (Inr u)
          obtain hp3 c3 where u: "u = (hp3, c3)" by (cases u)
          from mutate_blank [OF b2(1) _ m2 [unfolded u]] b1(3) b2(2)
          have b3: "blankHeap hp3" "length hp3 = length hp2" by (simp_all add: someRefs_def)
          have "reproduce ga rand pop hp c = Some (Inr ((o1, o2), hp3, c3))"
            unfolding reproduce_def s1 s2 using xe m1 w m2 u by simp
          with b1 b2 b3 show ?thesis by (simp add: someRefs_def)
        qed
      qed
    qed
  qed
qed

lemma someRefs_grow: "someRefs hp np \<Longrightarrow> length hp \<le> length hp' \<Longrightarrow> someRefs hp' np"
  unfolding someRefs_def by force

lemma fillPopulation_blank:
  "blankHeap hp \<Longrightarrow> validRefs hp pop \<Longrightarrow> someRefs hp newPop \<Longrightarrow>
   \<exists>r. fillPopulation ga rand pop hp c newPop = Some r
     \<and> (\<forall>hp' c' newPop'. r = Inr (hp', c', newPop') \<longrightarrow>
           blankHeap hp' \<and> length hp \<le> length hp' \<and> someRefs hp' newPop')"
proof (induction "nat (populationSize ga - int (length newPop))" arbitrary: hp c newPop
    rule: less_induct)
  case less
  show ?case
  proof (cases "int (length newPop) < populationSize ga")
    case False
    with less.prems show ?thesis
      by (simp add: fillPopulation.simps [of ga rand pop hp c newPop])
  next
    case True
    from reproduce_blank [OF less.prems(1,2), of ga rand c] obtain r where
      r: "reproduce ga rand pop hp c = Some r"
        "\<forall>o1 o2 hp' c'. r = Inr ((o1, o2), hp', c') \<longrightarrow>
           blankHeap hp' \<and> length hp \<le> length hp' \<and> someRefs hp' [o1, o2]" by blast
    show ?thesis
    proof (cases r)
      case (Inl e)
      with r(1) True show ?thesis
        by (simp add: fillPopulation.simps [of ga rand pop hp c newPop])
    next
      case (Inr v)
      obtain o1 o2 hp1 c1 where v: "v = ((o1, o2), hp1, c1)" by (cases v) auto
      with r Inr have b: "blankHeap hp1" "length hp \<le> length hp1" "someRefs hp1 [o1, o2]"
        by simp_all
      let ?np = "(if int (length (newPop @ [o1])) < populationSize ga
                then newPop @ [o1] @ [o2] else newPop @ [o1])"
      have m: "nat (populationSize ga - int (length ?np))
          < nat (populationSize ga - int (length newPop))" using True by auto
      have refs: "validRefs hp1 pop" using less.prems(2) b(2) by (rule validRefs_grow)
      have sr: "someRefs hp1 ?np"
        using someRefs_grow [OF less.prems(3) b(2)] b(3) by (auto simp: someRefs_def)
      from less.hyps [OF m b(1) refs sr, of c1] obtain r' where
        r': "fillPopulation ga rand pop hp1 c1 ?np = Some r'"
          "\<forall>hp' c' newPop'. r' = Inr (hp', c', newPop') \<longrightarrow>
             blankHeap hp' \<and> length hp1 \<le> length hp' \<and> someRefs hp' newPop'" by blast
      have "fillPopulation ga rand pop hp c newPop = Some r'"
        using True r(1) Inr v r'(1)
        by (simp add: fillPopulation.simps [of ga rand pop hp c newPop])
      with r'(2) b(2) show ?thesis by auto
    qed
  qed
qed

lemma elites_someRefs: "validRefs hp pop \<Longrightarrow> someRefs hp (elites n pop)"
proof -
  have g: "js_get (map Some xs) i = Some x \<Longrightarrow> x \<in> set xs" for i x and xs :: "Individual list"
    by (auto simp: js_get_def split: if_splits)
  assume "validRefs hp pop"
  then show ?thesis
    unfolding someRefs_def elites_def Let_def validRefs_def
    by (auto dest!: g [OF sym])
qed

lemma createNewGeneration_blank:
  assumes "blankHeap hp" "validRefs hp pop"
  shows "\<exists>r. createNewGeneration ga rand pop hp c = Some r
     \<and> (\<forall>hp' c' newPop'. r = Inr (hp', c', newPop') \<longrightarrow>
           blankHeap hp' \<and> length hp \<le> length hp' \<and> someRefs hp' newPop')"
  unfolding createNewGeneration_def
  by (rule fillPopulation_blank [OF assms elites_someRefs [OF assms(2)]])

lemma evaluatePopulation_refs:
  "evaluatePopulation ga hp newPop = Inr pop' \<Longrightarrow> someRefs hp newPop \<Longrightarrow> validRefs hp pop'"
proof (induction ga hp newPop arbitrary: pop' rule: evaluatePopulation.induct)
  case (1 ga heap)
  then show ?case by (simp add: validRefs_def)
next
  case (2 ga heap rest)
  then show ?case by simp
next
  case (3 ga heap individual rest)
  from "3.prems"(1) obtain m evaluated where
    m: "calculateFitness (heap ! chromosome individual) = Inr m"
      and e: "evaluatePopulation ga heap rest = Inr evaluated"
      and p: "pop' = individual\<lparr>makespan := makespan m, idleDistance := idleDistance m,
                      fitness := makeSpanWeight ga * makespan m
                                 + idleDistanceWeight ga * idleDistance m\<rparr> # evaluated"
    by (auto split: sum.splits)
  have "someRefs heap rest" using "3.prems"(2) by (simp add: someRefs_def)
  from "3.IH" [OF m e this] "3.prems"(2) p show ?case
    by (simp add: validRefs_def someRefs_def)
qed

lemma generationStep_blank:
  assumes "blankState st"
  shows "\<exists>st1 res. generationStep ga rand g st = Some (st1, res)
     \<and> (res = None \<longrightarrow> blankState st1) \<and> (\<exists>evs. trace st1 = trace st @ evs)"
proof -
  from assms have b: "blankHeap (heap st)" "validRefs (heap st) (population st)"
    by (simp_all add: blankState_def)
  from createNewGeneration_blank [OF b, of ga rand "cursor st"] obtain r where
    r: "createNewGeneration ga rand (population st) (heap st) (cursor st) = Some r"
      "\<forall>hp' c' newPop'. r = Inr (hp', c', newPop') \<longrightarrow>
           blankHeap hp' \<and> length (heap st) \<le> length hp' \<and> someRefs hp' newPop'" by blast
  show ?thesis
  proof (cases r)
    case (Inl e)
    with r(1) show ?thesis by (simp add: generationStep_def)
  next
    case (Inr v)
    obtain hp1 c1 np where v: "v = (hp1, c1, np)" by (cases v)
    with r Inr have b1: "blankHeap hp1" "someRefs hp1 np" by simp_all
    show ?thesis
    proof (cases "evaluatePopulation ga hp1 np")
      case (Inl e)
      with r(1) Inr v show ?thesis by (simp add: generationStep_def)
    next
      case ev: (Inr pop1)
      from evaluatePopulation_refs [OF ev b1(2)] have refs: "validRefs hp1 pop1" .
      show ?thesis
      proof (cases "findBestIndividual pop1")
        case None
        with r(1) Inr v ev show ?thesis by (simp add: generationStep_def)
      next
        case (Some best)
        with r(1) Inr v ev b1 refs show ?thesis
          by (simp add: generationStep_def Let_def blankState_def)
      qed
    qed
  qed
qed

lemma chunkLoop_blank:
  "blankState st \<Longrightarrow>
   \<exists>st1 res. chunkLoop ga rand endChunk g st = Some (st1, res)
     \<and> (res = None \<longrightarrow> blankState st1) \<and> (\<exists>evs. trace st1 = trace st @ evs)"
proof (induction "nat (endChunk - g)" arbitrary: g st rule: less_induct)
  case less
  show ?case
  proof (cases "g < endChunk")
    case False
    with less.prems show ?thesis by (simp add: chunkLoop.simps [of ga rand endChunk g st])
  next
    case True
    from generationStep_blank [OF less.prems, of ga rand g] obtain st1 res evs where
      s: "generationStep ga rand g st = Some (st1, res)" "res = None \<longrightarrow> blankState st1"
        "trace st1 = trace st @ evs" by blast
    show ?thesis
    proof (cases res)
      case (Some e)
      with s True show ?thesis by (simp add: chunkLoop.simps [of ga rand endChunk g st])
    next
      case None
      show ?thesis
      proof (cases "generationsWithoutImprovement st1 \<ge> earlyStopGenerations ga")
        case stop: True
        with s True None show ?thesis
          by (simp add: chunkLoop.simps [of ga rand endChunk g st])
      next
        case False
        have m: "nat (endChunk - (g + 1)) < nat (endChunk - g)" using True by simp
        from less.hyps [OF m] s(2) None obtain st2 res2 evs2 where
          c: "chunkLoop ga rand endChunk (g + 1) st1 = Some (st2, res2)"
            "res2 = None \<longrightarrow> blankState st2" "trace st2 = trace st1 @ evs2" by blast
        have "chunkLoop ga rand endChunk g st = Some (st2, res2)"
          using True s(1) None False c(1)
          by (simp add: chunkLoop.simps [of ga rand endChunk g st])
        with c s(3) show ?thesis by simp
      qed
    qed
  qed
qed

lemma mainLoop_blank:
  "blankState st \<Longrightarrow>
   \<exists>st1 res. mainLoop ga rand g st = Some (st1, res) \<and> (\<exists>evs. trace st1 = trace st @ evs)"
proof (induction "nat (maxGenerations ga - g)" arbitrary: g st rule: less_induct)
  case less
  show ?case
  proof (cases "g < maxGenerations ga")
    case False
    then show ?thesis by (simp add: mainLoop.simps [of ga rand g st])
  next
    case True
    define endChunk where "endChunk = min (g + processingChunkSize ga) (maxGenerations ga)"
    from chunkLoop_blank [OF less.prems, of ga rand endChunk g] obtain st1 res evs where
      s: "chunkLoop ga rand endChunk g st = Some (st1, res)" "res = None \<longrightarrow> blankState st1"
        "trace st1 = trace st @ evs" by blast
    show ?thesis
    proof (cases res)
      case (Some e)
      with s True show ?thesis
        by (simp add: mainLoop.simps [of ga rand g st] endChunk_def [symmetric] Let_def)
    next
      case None
      have m: "nat (maxGenerations ga - endChunk) < nat (maxGenerations ga - g)"
        using True by (auto simp: endChunk_def processingChunkSize_def)
      from less.hyps [OF m] s(2) None obtain st2 res2 evs2 where
        c: "mainLoop ga rand endChunk st1 = Some (st2, res2)" "trace st2 = trace st1 @ evs2"
        by blast
      have "mainLoop ga rand g st = Some (st2, res2)"
        using True s(1) None c(1)
        by (simp add: mainLoop.simps [of ga rand g st] endChunk_def [symmetric] Let_def)
      with c s(3) show ?thesis by simp
    qed
  qed
qed

lemma validHeap_empty_blank: "validHeap [] hp \<Longrightarrow> blankHeap hp"
  by (auto simp: validHeap_def blankHeap_def isPermutationOf_def blank_def)

lemma run_empty_tasks_returns:
  assumes e: "tasks ga = []" and ps: "1 \<le> populationSize ga"
    and sh: "validShuffle [] (shuffle rnd)"
  shows "\<exists>tr res. run ga rnd
     = Some (OnGenerationComplete 0 [] 0 0 0
               \<lparr>averageFitness = 0, worstFitness = 0, standardDeviation = 0\<rparr> # tr, res)"
proof -
  obtain heap0 population0 where ip: "initializePopulation ga rnd = (heap0, population0)"
    by (cases "initializePopulation ga rnd")
  have "validHeap [] []" "validRefs [] []" by (simp_all add: validHeap_def validRefs_def)
  from initializeLoop_valid [OF ip [unfolded initializePopulation_def] sh this]
  have v0: "validHeap [] heap0" "validRefs heap0 population0"
    "int (length population0) = populationSize ga" using ps by simp_all
  from evaluatePopulation_empty_tasks [OF v0(1,2), of ga] obtain population1 where
    ev: "evaluatePopulation ga heap0 (map Some population0) = Inr population1"
      "length population1 = length population0"
      "\<forall>ind \<in> set population1. fitness ind = 0 \<and> makespan ind = 0 \<and> idleDistance ind = 0
        \<and> heap0 ! chromosome ind = []" by blast
  have "population1 \<noteq> []" using ev(2) v0(3) ps by auto
  from findBestIndividual_nonempty [OF this] obtain b where
    b: "findBestIndividual population1 = Some b" "b \<in> set population1" by blast
  have z: "fitness b = 0" "makespan b = 0" "idleDistance b = 0" "heap0 ! chromosome b = []"
    using ev(3) b(2) by simp_all
  have st: "calculatePopulationStatistics population1
      = \<lparr>averageFitness = 0, worstFitness = 0, standardDeviation = 0\<rparr>"
    using ev(3) by (intro stats_all_zero) simp
  have refs: "validRefs heap0 population1"
  proof (rule evaluatePopulation_refs [OF ev(1)])
    show "someRefs heap0 (map Some population0)"
      using v0(2) by (auto simp: someRefs_def validRefs_def)
  qed
  define st0 where "st0 = \<lparr>heap = heap0, cursor = 0, population = population1,
      bestSolution = b, lastBestFitness = fitness b, generationsWithoutImprovement = 0,
      trace = [report 0 heap0 b (calculatePopulationStatistics population1)]\<rparr>"
  have "blankState st0"
    using validHeap_empty_blank [OF v0(1)] refs by (simp add: blankState_def st0_def)
  from mainLoop_blank [OF this, of ga "random rnd" 0] obtain st1 res evs where
    ml: "mainLoop ga (random rnd) 0 st0 = Some (st1, res)" "trace st1 = trace st0 @ evs" by blast
  have t: "trace st1 = OnGenerationComplete 0 [] 0 0 0
               \<lparr>averageFitness = 0, worstFitness = 0, standardDeviation = 0\<rparr> # evs"
    using ml(2) z st by (simp add: st0_def report_def)
  show ?thesis
    using ip ev(1) b(1) ml(1) t
    by (cases res) (simp_all add: run_def Let_def st0_def [symmetric])
qed

lemma run_callbacks:
  assumes "run ga rnd = Some (tr, res)"
  shows "neverRegresses (reports tr)
     \<and> (reports tr \<noteq> [] \<longrightarrow> fst (hd (reports tr)) = 0)
     \<and> int (length (reports tr)) \<le> max 0 (maxGenerations ga) + 1
     \<and> (res = None \<longrightarrow> (\<exists>gens. tr = gens @ [OnComplete] \<and> OnComplete \<notin> set gens \<and> gens \<noteq> []))
     \<and> (res \<noteq> None \<longrightarrow> OnComplete \<notin> set tr)"
proof -
  from run_tracked [OF assms]
  consider (early) "tr = []" "res \<noteq> None"
    | (loop) st where "tracked (max 0 (maxGenerations ga)) st"
        "res = None \<longrightarrow> tr = trace st @ [OnComplete]" "res \<noteq> None \<longrightarrow> tr = trace st"
    by blast
  then show ?thesis
  proof cases
    case early
    then show ?thesis by (simp add: neverRegresses_def)
  next
    case loop
    have rt: "reports tr = reports (trace st)"
      using loop(2,3) by (cases res) (simp_all add: reports_append)
    have t: "neverRegresses (reports (trace st))" "OnComplete \<notin> set (trace st)"
      "reports (trace st) \<noteq> []" "fst (hd (reports (trace st))) = 0"
      "\<forall>r \<in> set (reports (trace st)). 0 \<le> fst r \<and> fst r \<le> max 0 (maxGenerations ga)"
      using loop(1) unfolding tracked_def by auto
    have len: "int (length (reports (trace st))) \<le> max 0 (maxGenerations ga) + 1"
      by (rule neverRegresses_length [OF t(1) t(5)]) simp
    have ne: "trace st \<noteq> []" using t(3) by auto
    show ?thesis using rt t len ne loop(2,3) by auto
  qed
qed

definition demoParams :: GeneticAlgorithmParams where
  "demoParams =
     \<lparr>tasks = [tk 1, tk 2, tk 3], populationSize = 4, maxGenerations = 3,
      crossoverRate = 4/5, mutationRate = 1/10, makeSpanWeight = 1, idleDistanceWeight = 1/2\<rparr>"

definition demoRandomness :: Randomness where
  "demoRandomness =
     \<lparr>random = (\<lambda>n. real (n mod 10) / 10), shuffle = (\<lambda>k. rotate k [tk 1, tk 2, tk 3])\<rparr>"

lemma mset_rotate_eq: "mset (rotate n xs) = mset xs"
proof -
  let ?k = "n mod length xs"
  have "mset (rotate n xs) = mset (drop ?k xs @ take ?k xs)"
    by (simp only: rotate_drop_take)
  also have "\<dots> = mset (take ?k xs @ drop ?k xs)"
    by (simp only: mset_append add.commute)
  also have "\<dots> = mset xs" by (simp only: append_take_drop_id)
  finally show ?thesis .
qed

lemma demo_valid:
  "distinct (map task_id (tasks demoParams))" "tasks demoParams \<noteq> []"
  "1 \<le> populationSize demoParams" "validRandom (random demoRandomness)"
  "validShuffle (tasks demoParams) (shuffle demoRandomness)"
  by (simp_all add: demoParams_def demoRandomness_def tk_def validRandom_def validShuffle_def
      mset_rotate_eq del: mset.simps)

text \<open>
  C2.  The callbacks \<open>onGenerationComplete\<close> of a run, in the order of the calls, carry
  strictly increasing generation numbers starting at 0 and non-increasing best
  fitness values: the tracked best never regresses.
\<close>

theorem run_best_fitness_monotone:
  assumes "run ga rnd = Some (tr, res)"
  shows "sorted_wrt (\<lambda>a b. fst a < fst b \<and> snd b \<le> snd a) (reports tr)
     \<and> (reports tr \<noteq> [] \<longrightarrow> fst (hd (reports tr)) = 0)"
  using run_callbacks [OF assms] by (simp add: neverRegresses_def)

theorem run_best_fitness_monotone_witness:
  "\<exists>tr. run demoParams demoRandomness = Some (tr, None)
     \<and> sorted_wrt (\<lambda>a b. fst a < fst b \<and> snd b \<le> snd a) (reports tr)
     \<and> reports tr \<noteq> [] \<and> fst (hd (reports tr)) = 0"
proof -
  from run_completes [OF demo_valid] obtain tr where
    r: "run demoParams demoRandomness = Some (tr, None)" by blast
  from run_callbacks [OF r] obtain gens where
    "tr = gens @ [OnComplete]" "OnComplete \<notin> set gens" "gens \<noteq> []" by auto
  then have "reports tr \<noteq> []"
    using reports_length [of gens] by (auto simp: reports_append)
  with run_best_fitness_monotone [OF r] r show ?thesis by blast
qed

text \<open>
  C7 (as amended).  Every run that returns has called \<open>onGenerationComplete\<close> at most
  \<open>max(0, maxGenerations) + 1\<close> times; when it returns without an error it has called
  \<open>onComplete\<close> exactly once, after the last generation callback, and when it returns
  with an error it has not called \<open>onComplete\<close>.  For a population size of at least 1
  and a non-empty task list with pairwise distinct ids the run terminates without an
  error.
\<close>

theorem run_callback_counts:
  "(run ga rnd = Some (tr, res) \<longrightarrow>
      int (length (reports tr)) \<le> max 0 (maxGenerations ga) + 1
      \<and> (res = None \<longrightarrow>
            (\<exists>gens. tr = gens @ [OnComplete] \<and> OnComplete \<notin> set gens \<and> gens \<noteq> []))
      \<and> (res \<noteq> None \<longrightarrow> OnComplete \<notin> set tr))
   \<and> (distinct (map task_id (tasks ga)) \<and> tasks ga \<noteq> [] \<and> 1 \<le> populationSize ga
        \<and> validRandom (random rnd) \<and> validShuffle (tasks ga) (shuffle rnd) \<longrightarrow>
      (\<exists>gens. run ga rnd = Some (gens @ [OnComplete], None)
         \<and> OnComplete \<notin> set gens \<and> gens \<noteq> []
         \<and> int (length gens) \<le> max 0 (maxGenerations ga) + 1))"
proof (rule conjI)
  show "run ga rnd = Some (tr, res) \<longrightarrow>
      int (length (reports tr)) \<le> max 0 (maxGenerations ga) + 1
      \<and> (res = None \<longrightarrow>
            (\<exists>gens. tr = gens @ [OnComplete] \<and> OnComplete \<notin> set gens \<and> gens \<noteq> []))
      \<and> (res \<noteq> None \<longrightarrow> OnComplete \<notin> set tr)"
    using run_callbacks [of ga rnd tr res] by blast
next
  show "distinct (map task_id (tasks ga)) \<and> tasks ga \<noteq> [] \<and> 1 \<le> populationSize ga
        \<and> validRandom (random rnd) \<and> validShuffle (tasks ga) (shuffle rnd) \<longrightarrow>
      (\<exists>gens. run ga rnd = Some (gens @ [OnComplete], None)
         \<and> OnComplete \<notin> set gens \<and> gens \<noteq> []
         \<and> int (length gens) \<le> max 0 (maxGenerations ga) + 1)"
  proof
    assume a: "distinct (map task_id (tasks ga)) \<and> tasks ga \<noteq> [] \<and> 1 \<le> populationSize ga
        \<and> validRandom (random rnd) \<and> validShuffle (tasks ga) (shuffle rnd)"
    then obtain tr where r: "run ga rnd = Some (tr, None)"
      using run_completes [of ga rnd] by blast
    from run_callbacks [OF r] obtain gens where
      g: "tr = gens @ [OnComplete]" "OnComplete \<notin> set gens" "gens \<noteq> []"
      and l: "int (length (reports tr)) \<le> max 0 (maxGenerations ga) + 1" by auto
    have "length (reports tr) = length gens"
      using g(1,2) reports_length [of gens] by (simp add: reports_append)
    with r g l show "\<exists>gens. run ga rnd = Some (gens @ [OnComplete], None)
         \<and> OnComplete \<notin> set gens \<and> gens \<noteq> []
         \<and> int (length gens) \<le> max 0 (maxGenerations ga) + 1" by auto
  qed
qed

theorem run_callback_counts_witness:
  "distinct (map task_id (tasks demoParams)) \<and> tasks demoParams \<noteq> []
   \<and> 1 \<le> populationSize demoParams \<and> validRandom (random demoRandomness)
   \<and> validShuffle (tasks demoParams) (shuffle demoRandomness)
   \<and> (\<exists>gens. run demoParams demoRandomness = Some (gens @ [OnComplete], None)
         \<and> OnComplete \<notin> set gens \<and> gens \<noteq> [] \<and> int (length gens) \<le> 4
         \<and> int (length (reports (gens @ [OnComplete]))) \<le> 4)"
proof -
  note T = run_callback_counts [of demoParams demoRandomness]
  from T [of "[]" None] demo_valid obtain gens where
    g: "run demoParams demoRandomness = Some (gens @ [OnComplete], None)"
      "OnComplete \<notin> set gens" "gens \<noteq> []"
      "int (length gens) \<le> max 0 (maxGenerations demoParams) + 1" by blast
  from T [of "gens @ [OnComplete]" None] g(1)
  have "int (length (reports (gens @ [OnComplete]))) \<le> max 0 (maxGenerations demoParams) + 1"
    by blast
  with g demo_valid show ?thesis by (auto simp: demoParams_def)
qed

definition noPopulation :: GeneticAlgorithmParams where
  "noPopulation = demoParams\<lparr>populationSize := 0\<rparr>"

theorem run_no_population_counterexample:
  "0 \<le> maxGenerations noPopulation
   \<and> run noPopulation demoRandomness = Some ([], Some TypeError)
   \<and> \<not> (\<exists>gens res. run noPopulation demoRandomness = Some (gens @ [OnComplete], res))"
  using run_nonpositive_population [of noPopulation demoRandomness]
  by (simp add: noPopulation_def demoParams_def)

text \<open>
  C6 (as amended).  With a non-positive population size, \<open>run\<close> does the population
  work on an empty population: \<open>initializePopulation\<close> returns no individual,
  \<open>evaluatePopulation\<close> and \<open>findBestIndividual\<close> return nothing; then it raises
  a \<open>TypeError\<close> when it reads the fitness of the best individual, which is \<open>null\<close>,
  and no callback has fired.  With an empty task list and a population size of at least
  1, for every generation bound the run returns, and its first callback is
  \<open>onGenerationComplete\<close> for generation 0 with an empty best chromosome, fitness,
  makespan and idle distance 0 and all statistics 0; when the generation bound is 0 or
  less the only other callback is \<open>onComplete\<close> and the run ends without an error.
\<close>

theorem run_no_validation:
  "(populationSize ga \<le> 0 \<longrightarrow>
      initializePopulation ga rnd = ([], [])
      \<and> evaluatePopulation ga [] (map Some []) = Inr []
      \<and> findBestIndividual [] = None
      \<and> run ga rnd = Some ([], Some TypeError))
   \<and> (tasks ga = [] \<and> 1 \<le> populationSize ga \<and> validShuffle [] (shuffle rnd) \<longrightarrow>
      (\<exists>tr res. run ga rnd
          = Some (OnGenerationComplete 0 [] 0 0 0
                    \<lparr>averageFitness = 0, worstFitness = 0, standardDeviation = 0\<rparr> # tr, res)
         \<and> (maxGenerations ga \<le> 0 \<longrightarrow> tr = [OnComplete] \<and> res = None)))"
proof (rule conjI)
  show "populationSize ga \<le> 0 \<longrightarrow>
      initializePopulation ga rnd = ([], [])
      \<and> evaluatePopulation ga [] (map Some []) = Inr []
      \<and> findBestIndividual [] = None
      \<and> run ga rnd = Some ([], Some TypeError)"
    using run_nonpositive_population [of ga rnd]
    by (simp add: initializePopulation_def initializeLoop_none findBestIndividual_empty)
next
  show "tasks ga = [] \<and> 1 \<le> populationSize ga \<and> validShuffle [] (shuffle rnd) \<longrightarrow>
      (\<exists>tr res. run ga rnd
          = Some (OnGenerationComplete 0 [] 0 0 0
                    \<lparr>averageFitness = 0, worstFitness = 0, standardDeviation = 0\<rparr> # tr, res)
         \<and> (maxGenerations ga \<le> 0 \<longrightarrow> tr = [OnComplete] \<and> res = None))"
  proof (cases "maxGenerations ga \<le> 0")
    case True
    with run_empty_tasks [of ga rnd] show ?thesis by simp
  next
    case False
    with run_empty_tasks_returns [of ga rnd] show ?thesis by simp
  qed
qed

definition noTasks :: GeneticAlgorithmParams where
  "noTasks = demoParams\<lparr>tasks := [], maxGenerations := 0\<rparr>"

definition noTasksThree :: GeneticAlgorithmParams where
  "noTasksThree = demoParams\<lparr>tasks := []\<rparr>"

definition noShuffle :: Randomness where
  "noShuffle = demoRandomness\<lparr>shuffle := (\<lambda>k. [])\<rparr>"

theorem run_no_validation_witness:
  "populationSize noPopulation \<le> 0
   \<and> run noPopulation demoRandomness = Some ([], Some TypeError)
   \<and> tasks noTasks = [] \<and> 1 \<le> populationSize noTasks \<and> maxGenerations noTasks \<le> 0
   \<and> validShuffle [] (shuffle noShuffle)
   \<and> run noTasks noShuffle
        = Some ([OnGenerationComplete 0 [] 0 0 0
                   \<lparr>averageFitness = 0, worstFitness = 0, standardDeviation = 0\<rparr>,
                 OnComplete], None)
   \<and> tasks noTasksThree = [] \<and> 1 \<le> populationSize noTasksThree
   \<and> maxGenerations noTasksThree = 3
   \<and> (\<exists>tr res. run noTasksThree noShuffle
          = Some (OnGenerationComplete 0 [] 0 0 0
                    \<lparr>averageFitness = 0, worstFitness = 0, standardDeviation = 0\<rparr> # tr, res))"
  using run_no_validation [of noPopulation demoRandomness]
    run_no_validation [of noTasks noShuffle]
    run_no_validation [of noTasksThree noShuffle]
  by (simp add: noPopulation_def noTasks_def noTasksThree_def noShuffle_def demoParams_def
      demoRandomness_def validShuffle_def)

theorem run_empty_tasks_counterexample:
  "tasks noTasks = []
   \<and> run noTasks noShuffle
        = Some ([OnGenerationComplete 0 [] 0 0 0
                   \<lparr>averageFitness = 0, worstFitness = 0, standardDeviation = 0\<rparr>,
                 OnComplete], None)"
  using run_empty_tasks [of noTasks noShuffle]
  by (simp add: noTasks_def noShuffle_def demoParams_def demoRandomness_def validShuffle_def)

text \<open>
  C5 (as amended).  In every reproduction step the number of elite individuals is
  \<open>max(1, floor(0.1 \<sqdot> populationSize))\<close>, and the next population starts with them:
  its first entries are copies of the individuals of lowest fitness of the current
  population, in ascending (stable) order of fitness, with the same fitness values and
  the same chromosome array reference; the remainder is appended after them.
\<close>

theorem createNewGeneration_elitism:
  assumes "createNewGeneration ga rand pop hp c = Some (Inr (hp', c', newPop))"
  shows "eliteCount (populationSize ga) = max 1 (populationSize ga div 10)
     \<and> take (nat (eliteCount (populationSize ga))) newPop = elites (populationSize ga) pop
     \<and> (nat (eliteCount (populationSize ga)) \<le> length pop \<longrightarrow>
          elites (populationSize ga) pop
            = map Some (take (nat (eliteCount (populationSize ga))) (sort_key fitness pop)))"
  using fillPopulation_prefix [OF assms [unfolded createNewGeneration_def]]
    elites_take [of "populationSize ga" pop]
  by (simp add: length_elites eliteCount_eq)

definition demoHeap :: "TaskArray list" where
  "demoHeap =
     [[Some (tk 1), Some (tk 2), Some (tk 3)], [Some (tk 3), Some (tk 1), Some (tk 2)]]"

definition demoPopulation :: "Individual list" where
  "demoPopulation =
     [\<lparr>makespan = 9, idleDistance = 0, chromosome = 0, fitness = 7\<rparr>,
      \<lparr>makespan = 9, idleDistance = 0, chromosome = 1, fitness = 5\<rparr>,
      \<lparr>makespan = 9, idleDistance = 0, chromosome = 0, fitness = 6\<rparr>,
      \<lparr>makespan = 9, idleDistance = 0, chromosome = 1, fitness = 5\<rparr>]"

theorem createNewGeneration_elitism_witness:
  "\<exists>hp' c' newPop.
     createNewGeneration demoParams (random demoRandomness) demoPopulation demoHeap 0
       = Some (Inr (hp', c', newPop))
     \<and> eliteCount (populationSize demoParams) = 1
     \<and> nat (eliteCount (populationSize demoParams)) \<le> length demoPopulation
     \<and> take 1 newPop = [Some \<lparr>makespan = 9, idleDistance = 0, chromosome = 1, fitness = 5\<rparr>]"
proof -
  have hp: "validHeap (tasks demoParams) demoHeap"
    by (simp add: validHeap_def demoHeap_def demoParams_def isPermutationOf_def)
  have refs: "validRefs demoHeap demoPopulation"
    by (simp add: validRefs_def demoHeap_def demoPopulation_def)
  have len: "int (length demoPopulation) = populationSize demoParams"
    by (simp add: demoPopulation_def demoParams_def)
  from createNewGeneration_valid [OF demo_valid(1,2,3,4) hp refs len, of 0]
  obtain hp' c' pop' where
    g: "createNewGeneration demoParams (random demoRandomness) demoPopulation demoHeap 0
        = Some (Inr (hp', c', map Some pop'))" by blast
  have k: "eliteCount (populationSize demoParams) = 1"
    by (simp add: eliteCount_eq demoParams_def)
  have s: "take 1 (sort_key fitness demoPopulation)
      = [\<lparr>makespan = 9, idleDistance = 0, chromosome = 1, fitness = 5\<rparr>]"
    by (simp add: demoPopulation_def)
  from createNewGeneration_elitism [OF g] k s
  have "take 1 (map Some pop')
      = [Some \<lparr>makespan = 9, idleDistance = 0, chromosome = 1, fitness = 5\<rparr>]"
    by (simp add: demoPopulation_def)
  with g k show ?thesis by (auto simp: demoPopulation_def)
qed
text \<open>
  A population of 11: one elite is kept, where the ceiling of 1.1 is 2; the second
  entry of the next population is the offspring of the first tournament, here a clone
  of the individual of highest fitness value.
\<close>

definition elevenParams :: GeneticAlgorithmParams where
  "elevenParams =
     \<lparr>tasks = [tk 1], populationSize = 11, maxGenerations = 1,
      crossoverRate = 0, mutationRate = 0, makeSpanWeight = 1, idleDistanceWeight = 1\<rparr>"

definition ranked :: "nat \<Rightarrow> Individual" where
  "ranked i = \<lparr>makespan = 3, idleDistance = 0, chromosome = 0, fitness = real (11 - i)\<rparr>"

definition elevenPopulation :: "Individual list" where
  "elevenPopulation = map ranked [0..<11]"

lemma eleven_sorted: "sort_key fitness elevenPopulation = rev elevenPopulation"
  by (simp add: elevenPopulation_def ranked_def upt_rec numeral_nat)

lemma eleven_tournament:
  "tournamentSelection (\<lambda>n. 1/100) c elevenPopulation = Inr (Some (ranked 0))"
proof -
  have "js_get (map Some elevenPopulation) 0 = Some (ranked 0)"
    by (simp add: js_get_def elevenPopulation_def upt_rec numeral_nat)
  then show ?thesis
    by (simp add: tournamentSelection_def tournamentRound_def randomInt_def Let_def
        elevenPopulation_def)
qed

lemma eleven_reproduce:
  "reproduce elevenParams (\<lambda>n. 1/100) elevenPopulation [[Some (tk 1)]] 0
   = Some (Inr ((Some (ranked 0), Some (ranked 0)), [[Some (tk 1)]], 9))"
  by (simp add: reproduce_def eleven_tournament mutate_def elevenParams_def)

theorem eliteCount_floor_counterexample:
  "eliteCount (populationSize elevenParams) = 1
   \<and> max 1 \<lceil>real_of_int (populationSize elevenParams) * 0.1\<rceil> = (2 :: int)
   \<and> fitness (sort_key fitness elevenPopulation ! 1) = 2
   \<and> (\<exists>hp' c' newPop.
         createNewGeneration elevenParams (\<lambda>n. 1/100) elevenPopulation [[Some (tk 1)]] 0
           = Some (Inr (hp', c', newPop))
         \<and> length newPop = 11
         \<and> newPop ! 0 = Some (ranked 10) \<and> fitness (ranked 10) = 1
         \<and> newPop ! 1 = Some (ranked 0) \<and> fitness (ranked 0) = 11)"
proof -
  have p: "populationSize elevenParams = 11" "tasks elevenParams = [tk 1]"
    by (simp_all add: elevenParams_def)
  have k: "eliteCount 11 = 1" by (simp add: eliteCount_eq)
  have c: "\<lceil>real_of_int 11 * 0.1\<rceil> = (2 :: int)" by (simp add: ceiling_eq_iff)
  have l: "length elevenPopulation = 11" by (simp add: elevenPopulation_def)
  have r10: "rev elevenPopulation ! 0 = ranked 10" "rev elevenPopulation ! 1 = ranked 9"
    by (simp_all add: elevenPopulation_def upt_rec numeral_nat)
  have e: "elites 11 elevenPopulation = [Some (ranked 10)]"
    using elites_take [of 11 elevenPopulation] l k r10(1)
    by (simp add: eleven_sorted take_Suc_conv_app_nth)
  have dist: "distinct (map task_id (tasks elevenParams))" "tasks elevenParams \<noteq> []"
    by (simp_all add: p)
  have vr: "validRandom (\<lambda>n. 1/100)" by (simp add: validRandom_def)
  have hp: "validHeap (tasks elevenParams) [[Some (tk 1)]]"
    by (simp add: validHeap_def isPermutationOf_def p)
  have refs: "validRefs [[Some (tk 1)]] elevenPopulation"
    by (auto simp: validRefs_def elevenPopulation_def ranked_def)
  have ne: "elevenPopulation \<noteq> []" using l by auto
  let ?next = "[Some (ranked 10), Some (ranked 0), Some (ranked 0)]"
  have vo: "validOffspring [[Some (tk 1)]] ?next"
    by (simp add: validOffspring_def ranked_def)
  from fillPopulation_valid [OF dist refs ne vr hp order_refl vo, of 9]
  obtain hp' c' newPop where
    f: "fillPopulation elevenParams (\<lambda>n. 1/100) elevenPopulation [[Some (tk 1)]] 9 ?next
        = Some (Inr (hp', c', newPop))" "int (length newPop) = populationSize elevenParams"
    by (auto simp: p)
  from fillPopulation_prefix [OF f(1)] have t: "take 3 newPop = ?next"
    by (simp add: numeral_3_eq_3)
  have n0: "newPop ! 0 = Some (ranked 10)" and n1: "newPop ! 1 = Some (ranked 0)"
    using arg_cong [OF t, of "\<lambda>xs. xs ! 0"] arg_cong [OF t, of "\<lambda>xs. xs ! 1"] by simp_all
  have "createNewGeneration elevenParams (\<lambda>n. 1/100) elevenPopulation [[Some (tk 1)]] 0
      = Some (Inr (hp', c', newPop))"
    unfolding createNewGeneration_def p e
    by (subst fillPopulation.simps) (simp add: p eleven_reproduce f(1))
  moreover have "length newPop = 11" using f(2) p by simp
  moreover have "fitness (sort_key fitness elevenPopulation ! 1) = 2"
    unfolding eleven_sorted r10 by (simp add: ranked_def)
  moreover have "fitness (ranked 10) = 1" "fitness (ranked 0) = 11" by (simp_all add: ranked_def)
  ultimately show ?thesis using k c n0 n1 p by auto
qed

section \<open>Runs on inputs that are not well-formed\<close>

text \<open>
  A reproduction step in which an elite individual's array is changed in place: the
  elite copy, the selected parent and the cloned offspring all refer to array 0, and
  the swap mutation of the offspring exchanges its two elements.
\<close>

definition sharedPopulation :: "Individual list" where
  "sharedPopulation =
     [\<lparr>makespan = 6, idleDistance = 0, chromosome = 0, fitness = 1\<rparr>,
      \<lparr>makespan = 6, idleDistance = 0, chromosome = 1, fitness = 2\<rparr>]"

definition sharedHeap :: "TaskArray list" where
  "sharedHeap = [[Some (tk 1), Some (tk 2)], [Some (tk 2), Some (tk 1)]]"

definition sharedParams :: GeneticAlgorithmParams where
  "sharedParams =
     \<lparr>tasks = [tk 1, tk 2], populationSize = 2, maxGenerations = 1,
      crossoverRate = 0, mutationRate = 1, makeSpanWeight = 1, idleDistanceWeight = 1\<rparr>"

definition sharedRandom :: "nat \<Rightarrow> real" where
  "sharedRandom n = (if n = 9 then 3/4 else 1/4)"

lemma shared_tournament:
  "tournamentSelection sharedRandom 0 sharedPopulation = Inr (Some (sharedPopulation ! 0))"
  "tournamentSelection sharedRandom 3 sharedPopulation = Inr (Some (sharedPopulation ! 0))"
  by (simp_all add: tournamentSelection_def tournamentRound_def sharedRandom_def
      sharedPopulation_def randomInt_def js_get_def Let_def)

lemma shared_mutate1:
  "mutate 1 sharedRandom 7 sharedHeap (Some (sharedPopulation ! 0))
   = Inr ([[Some (tk 2), Some (tk 1)], [Some (tk 2), Some (tk 1)]], 11)"
  by (simp add: mutate_def sharedRandom_def sharedHeap_def sharedPopulation_def mutateArray_def
      swapMutation_def randomInt_def js_get_def js_set_def Let_def)

lemma shared_mutate2:
  "mutate 1 sharedRandom 11 [[Some (tk 2), Some (tk 1)], [Some (tk 2), Some (tk 1)]]
     (Some (sharedPopulation ! 0))
   = Inr ([[Some (tk 2), Some (tk 1)], [Some (tk 2), Some (tk 1)]], 15)"
  by (simp add: mutate_def sharedRandom_def sharedPopulation_def mutateArray_def
      swapMutation_def randomInt_def js_get_def js_set_def Let_def)

lemma shared_reproduce:
  "reproduce sharedParams sharedRandom sharedPopulation sharedHeap 0
   = Some (Inr ((Some (sharedPopulation ! 0), Some (sharedPopulation ! 0)),
                [[Some (tk 2), Some (tk 1)], [Some (tk 2), Some (tk 1)]], 15))"
  by (simp add: reproduce_def shared_tournament shared_mutate1 shared_mutate2 sharedParams_def
      sharedRandom_def)

lemma shared_elites:
  "elites 2 sharedPopulation = [Some (sharedPopulation ! 0)]"
  by (simp add: elites_def eliteCount_def sharedPopulation_def js_get_def Let_def)

lemma elite_array_changed_in_place:
  "createNewGeneration sharedParams sharedRandom sharedPopulation sharedHeap 0
   = Some (Inr ([[Some (tk 2), Some (tk 1)], [Some (tk 2), Some (tk 1)]], 15,
                [Some (sharedPopulation ! 0), Some (sharedPopulation ! 0)]))
   \<and> chromosome (sharedPopulation ! 0) = 0
   \<and> sharedHeap ! 0 = [Some (tk 1), Some (tk 2)]"
proof -
  have p: "populationSize sharedParams = 2" by (simp add: sharedParams_def)
  have "fillPopulation sharedParams sharedRandom sharedPopulation sharedHeap 0
          [Some (sharedPopulation ! 0)]
      = fillPopulation sharedParams sharedRandom sharedPopulation
          [[Some (tk 2), Some (tk 1)], [Some (tk 2), Some (tk 1)]] 15
          [Some (sharedPopulation ! 0), Some (sharedPopulation ! 0)]"
    by (subst fillPopulation.simps) (simp add: p shared_reproduce)
  also have "\<dots> = Some (Inr ([[Some (tk 2), Some (tk 1)], [Some (tk 2), Some (tk 1)]], 15,
                [Some (sharedPopulation ! 0), Some (sharedPopulation ! 0)]))"
    by (subst fillPopulation.simps) (simp add: p)
  finally have "createNewGeneration sharedParams sharedRandom sharedPopulation sharedHeap 0
      = Some (Inr ([[Some (tk 2), Some (tk 1)], [Some (tk 2), Some (tk 1)]], 15,
                [Some (sharedPopulation ! 0), Some (sharedPopulation ! 0)]))"
    by (simp add: createNewGeneration_def p shared_elites)
  moreover have "chromosome (sharedPopulation ! 0) = 0" by (simp add: sharedPopulation_def)
  moreover have "sharedHeap ! 0 = [Some (tk 1), Some (tk 2)]" by (simp add: sharedHeap_def)
  ultimately show ?thesis by blast
qed

text \<open>
  A run on an empty task list in which a swap mutation writes \<open>undefined\<close> into the
  empty chromosome; the next evaluation raises a \<open>TypeError\<close>.
\<close>

definition emptyParams :: GeneticAlgorithmParams where
  "emptyParams =
     \<lparr>tasks = [], populationSize = 2, maxGenerations = 1,
      crossoverRate = 0, mutationRate = 1, makeSpanWeight = 1, idleDistanceWeight = 1\<rparr>"

definition quarter :: Randomness where
  "quarter = \<lparr>random = (\<lambda>n. 1/4), shuffle = (\<lambda>k. [])\<rparr>"

definition zeroStats :: Stats where
  "zeroStats = \<lparr>averageFitness = 0, worstFitness = 0, standardDeviation = 0\<rparr>"

definition blankPopulation :: "Individual list" where
  "blankPopulation = [newIndividual 0, newIndividual 1]"

lemma empty_initial:
  "initializePopulation emptyParams quarter = ([[], []], blankPopulation)"
  by (simp add: initializePopulation_def initializeLoop.simps emptyParams_def quarter_def
      createRandomChromosome_eq blankPopulation_def)

lemma empty_evaluate:
  "evaluatePopulation emptyParams [[], []] (map Some blankPopulation)
   = Inr blankPopulation"
  by (simp add: calculateFitness_def evalStart_def newIndividual_def blankPopulation_def)

lemma empty_tournament:
  "tournamentSelection (\<lambda>n. 1/4) c blankPopulation
   = Inr (Some (newIndividual 0))"
  by (simp add: tournamentSelection_def tournamentRound_def randomInt_def js_get_def Let_def
      newIndividual_def blankPopulation_def)

lemma empty_mutate:
  "mutate 1 (\<lambda>n. 1/4) c [[], []] (Some (newIndividual 0)) = Inr ([[None], []], c + 4)"
  "mutate 1 (\<lambda>n. 1/4) c [[None], []] (Some (newIndividual 0)) = Inr ([[None], []], c + 4)"
  by (simp_all add: mutate_def mutateArray_def swapMutation_def randomInt_def js_get_def
      js_set_def Let_def newIndividual_def)

lemma empty_reproduce:
  "reproduce emptyParams (\<lambda>n. 1/4) blankPopulation [[], []] 0
   = Some (Inr ((Some (newIndividual 0), Some (newIndividual 0)), [[None], []], 15))"
  by (simp add: reproduce_def empty_tournament empty_mutate emptyParams_def)

lemma empty_generation:
  "createNewGeneration emptyParams (\<lambda>n. 1/4) blankPopulation [[], []] 0
   = Some (Inr ([[None], []], 15, [Some (newIndividual 0), Some (newIndividual 0)]))"
proof -
  have p: "populationSize emptyParams = 2" by (simp add: emptyParams_def)
  have e: "elites 2 blankPopulation = [Some (newIndividual 0)]"
    by (simp add: elites_def eliteCount_def js_get_def Let_def newIndividual_def
        blankPopulation_def)
  have "fillPopulation emptyParams (\<lambda>n. 1/4) blankPopulation [[], []] 0
          [Some (newIndividual 0)]
      = fillPopulation emptyParams (\<lambda>n. 1/4) blankPopulation [[None], []] 15
          [Some (newIndividual 0), Some (newIndividual 0)]"
    by (subst fillPopulation.simps) (simp add: p empty_reproduce)
  also have "\<dots> = Some (Inr ([[None], []], 15, [Some (newIndividual 0), Some (newIndividual 0)]))"
    by (subst fillPopulation.simps) (simp add: p)
  finally show ?thesis by (simp add: createNewGeneration_def p e)
qed

lemma run_empty_tasks_swap_throws:
  "run emptyParams quarter = Some ([OnGenerationComplete 0 [] 0 0 0 zeroStats], Some TypeError)"
proof -
  have b: "findBestIndividual blankPopulation = Some (newIndividual 0)"
    by (simp add: findBestIndividual_def newIndividual_def blankPopulation_def)
  have s: "calculatePopulationStatistics blankPopulation = zeroStats"
    unfolding zeroStats_def
    by (rule stats_all_zero) (simp add: newIndividual_def blankPopulation_def)
  define st where "st = \<lparr>heap = [[], []], cursor = 0,
      population = blankPopulation, bestSolution = newIndividual 0,
      lastBestFitness = fitness (newIndividual 0), generationsWithoutImprovement = 0,
      trace = [report 0 [[], []] (newIndividual 0) zeroStats]\<rparr>"
  have ev: "evaluatePopulation emptyParams [[None], []]
      [Some (newIndividual 0), Some (newIndividual 0)] = Inl TypeError"
    by (simp add: calculateFitness_def newIndividual_def)
  have gs: "generationStep emptyParams (\<lambda>n. 1/4) 0 st
      = Some (st\<lparr>heap := [[None], []], cursor := 15\<rparr>, Some TypeError)"
    by (simp add: generationStep_def st_def empty_generation ev del: evaluatePopulation.simps)
  have cl: "chunkLoop emptyParams (\<lambda>n. 1/4) 1 0 st
      = Some (st\<lparr>heap := [[None], []], cursor := 15\<rparr>, Some TypeError)"
    by (subst chunkLoop.simps) (simp add: gs)
  have ml: "mainLoop emptyParams (\<lambda>n. 1/4) 0 st
      = Some (st\<lparr>heap := [[None], []], cursor := 15\<rparr>, Some TypeError)"
  proof -
    have "maxGenerations emptyParams = 1" "processingChunkSize emptyParams = 5"
      by (simp_all add: emptyParams_def processingChunkSize_def)
    then show ?thesis by (subst mainLoop.simps) (simp add: cl)
  qed
  have r: "report 0 [[], []] (newIndividual 0) zeroStats
      = OnGenerationComplete 0 [] 0 0 0 zeroStats"
    by (simp add: report_def newIndividual_def)
  have q: "random quarter = (\<lambda>n. 1/4)" by (simp add: quarter_def)
  show ?thesis
    unfolding run_def empty_initial
    using empty_evaluate b s ml r
    by (simp add: Let_def q st_def)
qed

text \<open>
  A run on two tasks with the same id: the fill loop of the crossover finds every id of
  the parent used and never returns.
\<close>

definition twin :: Task where
  "twin = (tk 1)\<lparr>processingTime := 4\<rparr>"

definition twinArray :: TaskArray where
  "twinArray = [Some (tk 1), Some twin]"

definition twinParams :: GeneticAlgorithmParams where
  "twinParams =
     \<lparr>tasks = [tk 1, twin], populationSize = 2, maxGenerations = 1,
      crossoverRate = 1, mutationRate = 0, makeSpanWeight = 1, idleDistanceWeight = 1\<rparr>"

definition zeros :: Randomness where
  "zeros = \<lparr>random = (\<lambda>n. 0), shuffle = (\<lambda>k. [tk 1, twin])\<rparr>"

definition twinPopulation :: "Individual list" where
  "twinPopulation =
     [\<lparr>makespan = 7, idleDistance = 0, chromosome = 0, fitness = 7\<rparr>,
      \<lparr>makespan = 7, idleDistance = 0, chromosome = 1, fitness = 7\<rparr>]"

lemma twin_crossover: "crossoverArrays 0 0 twinArray twinArray = None"
proof -
  have d: "findUnused {1} twinArray 1 = None"
    by (rule findUnused_diverges) (simp_all add: twinArray_def twin_def tk_def)
  have s: "segmentIds [Some (tk 1), None] 0 0 = {1}"
    by (simp add: segmentIds_def js_get_def tk_def)
  have "fillLoop twinArray 0 0 0 {1} [Some (tk 1), None]
      = fillLoop twinArray 0 0 1 {1} [Some (tk 1), None]"
    by (subst fillLoop.simps) (simp add: twinArray_def)
  also have "\<dots> = None"
    by (subst fillLoop.simps) (simp add: d, simp add: twinArray_def)
  finally have f: "fillRemainingPositions twinArray [Some (tk 1), None] 0 0 = None"
    by (simp add: fillRemainingPositions_def s)
  have c: "copySegments twinArray twinArray 0 0 ([None, None], [None, None])
      = ([Some (tk 1), None], [Some (tk 1), None])"
    by (simp add: copySegments_def js_get_def js_set_def twinArray_def)
  have l: "length twinArray = 2" by (simp add: twinArray_def)
  show ?thesis
    by (simp add: crossoverArrays_def randomInt_def Let_def l c f numeral_2_eq_2)
qed

lemma twin_initial:
  "initializePopulation twinParams zeros = ([twinArray, twinArray], blankPopulation)"
  by (simp add: initializePopulation_def initializeLoop.simps twinParams_def zeros_def
      createRandomChromosome_eq blankPopulation_def twinArray_def)

lemma twin_fitness: "calculateFitness twinArray = Inr \<lparr>makespan = 7, idleDistance = 0\<rparr>"
  by (simp add: calculateFitness_def evalStart_def evalStep_def twinArray_def twin_def tk_def
      Let_def)

lemma twin_evaluate:
  "evaluatePopulation twinParams [twinArray, twinArray] (map Some blankPopulation)
   = Inr twinPopulation"
  by (simp add: twin_fitness blankPopulation_def newIndividual_def twinPopulation_def
      twinParams_def)

lemma twin_tournament:
  "tournamentSelection (\<lambda>n. 0) c twinPopulation = Inr (Some (twinPopulation ! 0))"
  by (simp add: tournamentSelection_def tournamentRound_def randomInt_def js_get_def Let_def
      twinPopulation_def)

lemma twin_reproduce:
  "reproduce twinParams (\<lambda>n. 0) twinPopulation [twinArray, twinArray] c = None"
proof -
  have "crossover 0 0 [twinArray, twinArray] (Some (twinPopulation ! 0))
      (Some (twinPopulation ! 0)) = None"
    by (simp add: crossover_def twin_crossover twinPopulation_def)
  moreover have "crossoverRate twinParams = 1" by (simp add: twinParams_def)
  ultimately show ?thesis by (simp add: reproduce_def twin_tournament)
qed

lemma run_duplicate_ids_diverges: "run twinParams zeros = None"
proof -
  have p: "populationSize twinParams = 2" "maxGenerations twinParams = 1"
    "processingChunkSize twinParams = 5"
    by (simp_all add: twinParams_def processingChunkSize_def)
  have e: "length (elites 2 twinPopulation) = 1" by (simp add: length_elites eliteCount_eq)
  have cg: "createNewGeneration twinParams (\<lambda>n. 0) twinPopulation [twinArray, twinArray] 0 = None"
    unfolding createNewGeneration_def
    by (subst fillPopulation.simps) (simp add: p e twin_reproduce)
  have gs: "generationStep twinParams (\<lambda>n. 0) 0 st = None"
    if "population st = twinPopulation" "heap st = [twinArray, twinArray]" "cursor st = 0" for st
    using that by (simp add: generationStep_def cg)
  have cl: "chunkLoop twinParams (\<lambda>n. 0) 1 0 st = None"
    if "population st = twinPopulation" "heap st = [twinArray, twinArray]" "cursor st = 0" for st
    by (subst chunkLoop.simps) (simp add: gs [OF that])
  have ml: "mainLoop twinParams (\<lambda>n. 0) 0 st = None"
    if "population st = twinPopulation" "heap st = [twinArray, twinArray]" "cursor st = 0" for st
    by (subst mainLoop.simps) (simp add: p cl [OF that])
  obtain b where b: "findBestIndividual twinPopulation = Some b"
    using findBestIndividual_nonempty [of twinPopulation] by (auto simp: twinPopulation_def)
  have q: "random zeros = (\<lambda>n. 0)" by (simp add: zeros_def)
  show ?thesis
    unfolding run_def twin_initial
    by (simp add: twin_evaluate b Let_def q ml)
qed

end
